theory Spec2Isabelle
  imports Main
begin

section \<open>Bytes, C strings and the C library functions the tools call\<close>

text \<open>
  Both tools work on C \<^verbatim>\<open>char\<close> buffers. A byte is a \<^typ>\<open>char\<close>, a buffer is a
  \<^typ>\<open>string\<close> holding the memory from a pointer onwards, and a pointer into a buffer is
  an offset (\<^term>\<open>drop p buffer\<close> is the memory at \<^verbatim>\<open>buffer + p\<close>).
\<close>

abbreviation NUL :: char where "NUL \<equiv> CHR 0x00"
abbreviation NL :: char where "NL \<equiv> CHR 0x0A"
abbreviation BSL :: char where "BSL \<equiv> CHR 0x5C"
abbreviation EQUALS :: char where "EQUALS \<equiv> CHR 0x3D"

text \<open>\<^verbatim>\<open>strlen\<close>: the number of bytes before the first NUL of the memory.\<close>

definition strlen :: "string \<Rightarrow> nat" where
  "strlen s = length (takeWhile (\<lambda>c. c \<noteq> NUL) s)"

text \<open>
  \<^verbatim>\<open>strchr\<close>: the offset of the first occurrence of \<open>c\<close> in the C string that starts the
  memory, \<open>None\<close> for the null pointer. The search ends at the first NUL.
\<close>

fun strchr :: "string \<Rightarrow> char \<Rightarrow> nat option" where
  "strchr [] c = None"
| "strchr (x # xs) c =
     (if x = c then Some 0
      else if x = NUL then None
      else map_option Suc (strchr xs c))"

text \<open>\<^verbatim>\<open>isascii\<close>, \<^verbatim>\<open>iscntrl\<close>, \<^verbatim>\<open>isspace\<close> and \<^verbatim>\<open>isxdigit\<close> in the C locale.\<close>

definition isascii :: "char \<Rightarrow> bool" where
  "isascii c = ((of_char c :: nat) < 128)"

definition iscntrl :: "char \<Rightarrow> bool" where
  "iscntrl c = ((of_char c :: nat) < 32 \<or> (of_char c :: nat) = 127)"

definition isspace :: "char \<Rightarrow> bool" where
  "isspace c = (c = CHR 0x20 \<or> (9 \<le> (of_char c :: nat) \<and> (of_char c :: nat) \<le> 13))"

definition isxdigit :: "char \<Rightarrow> bool" where
  "isxdigit c =
     (let n = (of_char c :: nat)
      in (48 \<le> n \<and> n \<le> 57) \<or> (65 \<le> n \<and> n \<le> 70) \<or> (97 \<le> n \<and> n \<le> 102))"

text \<open>The value of a hexadecimal digit.\<close>

definition xdigit_val :: "char \<Rightarrow> nat" where
  "xdigit_val c =
     (let n = (of_char c :: nat)
      in if n \<le> 57 then n - 48 else if n \<le> 70 then n - 55 else n - 87)"

section \<open>nvram\_dump: \<^verbatim>\<open>escape_string\<close>\<close>

datatype esc_mode = ESC_FULL | ESC_HUMAN

text \<open>One upper-case hexadecimal digit, as \<^verbatim>\<open>%X\<close> prints it.\<close>

definition hex_digit :: "nat \<Rightarrow> char" where
  "hex_digit n = ''0123456789ABCDEF'' ! n"

text \<open>\<^verbatim>\<open>sprintf( tmpbuf, "\\x%02.2X", (unsigned int) ( src[i] & 0xFF ) )\<close>\<close>

definition sprintf_hex :: "char \<Rightarrow> string" where
  "sprintf_hex c =
     [BSL, CHR ''x'', hex_digit ((of_char c :: nat) div 16), hex_digit ((of_char c :: nat) mod 16)]"

text \<open>
  The body of the loop of \<^verbatim>\<open>escape_string\<close> up to the size check: the escape sequence
  that is put into \<^verbatim>\<open>tmpbuf\<close> for the byte \<^verbatim>\<open>src[i]\<close>.
\<close>

definition tmpbuf :: "esc_mode \<Rightarrow> char \<Rightarrow> string" where
  "tmpbuf escape_mode c =
     (if isascii c then
        (if iscntrl c then
           (if c = NL then
              (if escape_mode = ESC_HUMAN then [BSL, NL] else [BSL, CHR ''n''])
            else if c = CHR 0x07 then [BSL, CHR ''a'']
            else if c = CHR 0x08 then [BSL, CHR ''b'']
            else if c = CHR 0x0C then [BSL, CHR ''f'']
            else if c = CHR 0x0D then [BSL, CHR ''r'']
            else if c = CHR 0x09 then [BSL, CHR ''t'']
            else if c = CHR 0x0B then [BSL, CHR ''v'']
            else sprintf_hex c)
         else if c = BSL then [BSL, BSL]
         else [c])
      else sprintf_hex c)"

text \<open>
  The loop of \<^verbatim>\<open>escape_string\<close>. The list is \<^verbatim>\<open>src[i..len)\<close>, \<open>dest\<close> is
  \<^verbatim>\<open>dest[0..j)\<close>, the bytes stored so far: every \<^verbatim>\<open>strcpy( dest+j, tmpbuf )\<close> appends at
  offset \<open>j\<close> and puts its terminating NUL at \<^verbatim>\<open>dest[j + strlen( tmpbuf )]\<close>. The result is
  the final \<open>i\<close> (the return value) with the text stored.
\<close>

fun escape_loop :: "esc_mode \<Rightarrow> int \<Rightarrow> string \<Rightarrow> nat \<Rightarrow> nat \<Rightarrow> string \<Rightarrow> nat \<times> string" where
  "escape_loop escape_mode maxsz [] i j dest = (i, dest)"
| "escape_loop escape_mode maxsz (c # cs) i j dest =
     (if int (j + length (tmpbuf escape_mode c)) \<ge> maxsz then (i, dest)
      else escape_loop escape_mode maxsz cs (i + 1) (j + length (tmpbuf escape_mode c))
             (dest @ tmpbuf escape_mode c))"

text \<open>
  \<^verbatim>\<open>escape_string( escape_mode, src, dest, max )\<close>. \<open>src\<close> is the memory at the pointer
  \<^verbatim>\<open>src\<close>; only its first \<^verbatim>\<open>strlen( src )\<close> bytes are visited. When the loop stores nothing,
  \<^verbatim>\<open>dest\<close> is left as it was; \<^verbatim>\<open>dump_file\<close> clears \<^verbatim>\<open>dest[0]\<close> before each call, so that
  the destination read as a C string is the text returned here.
\<close>

definition escape_string :: "esc_mode \<Rightarrow> string \<Rightarrow> int \<Rightarrow> nat \<times> string" where
  "escape_string escape_mode src maxsz =
     (if maxsz \<le> 0 then (0, [])
      else escape_loop escape_mode maxsz (take (strlen src) src) 0 0 [])"

section \<open>nvram\_build: \<^verbatim>\<open>unescape_string\<close>\<close>

text \<open>
  \<^verbatim>\<open>strtol( s, &eptr, 16 )\<close> of the C library, on the C string that starts the memory
  \<open>s\<close>: optional white space, an optional sign, an optional \<^verbatim>\<open>0x\<close> prefix, then
  hexadecimal digits. The result is the value and the offset \<^verbatim>\<open>eptr - s\<close>; with no digit
  there is no conversion and \<^verbatim>\<open>eptr = s\<close>. The caller passes at most two characters, so
  the value is never out of range and \<^verbatim>\<open>errno\<close> stays 0.
\<close>

definition strtol16 :: "string \<Rightarrow> int \<times> nat" where
  "strtol16 s =
     (let ws = length (takeWhile isspace s);
          s1 = drop ws s;
          sg = (case s1 of c # _ \<Rightarrow> if c = CHR ''-'' \<or> c = CHR ''+'' then 1 else 0 | [] \<Rightarrow> 0);
          neg = (case s1 of c # _ \<Rightarrow> c = CHR ''-'' | [] \<Rightarrow> False);
          s2 = drop sg s1;
          px = (case s2 of z # x # d # _ \<Rightarrow>
                  if z = CHR ''0'' \<and> (x = CHR ''x'' \<or> x = CHR ''X'') \<and> isxdigit d then 2 else 0
                | _ \<Rightarrow> 0);
          ds = takeWhile isxdigit (drop px s2);
          v = foldl (\<lambda>a d. 16 * a + int (xdigit_val d)) 0 ds
      in if ds = [] then (0, 0)
         else (if neg then - v else v, ws + sg + px + length ds))"

text \<open>
  What a call of \<^verbatim>\<open>unescape_string\<close> does: it returns 0 after reading up to offset \<open>p\<close>
  (where it found the NUL that ended its loop) and storing the given bytes in \<^verbatim>\<open>dest\<close>
  (the closing NUL included); or it returns 1; or it reads beyond the end of the memory it
  was given.
\<close>

datatype unescaped = Unescaped nat string | Invalid | OutOfBounds

text \<open>
  The loop of \<^verbatim>\<open>unescape_string\<close>. The list is the memory at \<^verbatim>\<open>p\<close>, \<open>p\<close> is the offset
  from \<^verbatim>\<open>src\<close>, \<open>dest\<close> holds the bytes stored so far (\<^verbatim>\<open>dest[0..q)\<close>). After a backslash
  the next byte selects the branch of the \<^verbatim>\<open>switch\<close>; the \<^verbatim>\<open>default\<close> branch copies that
  byte and steps over it, whatever it is.
\<close>

fun unescape_loop :: "string \<Rightarrow> nat \<Rightarrow> string \<Rightarrow> unescaped" where
  "unescape_loop [] p dest = OutOfBounds"
| "unescape_loop (c # cs) p dest =
     (if c = NUL then Unescaped p (dest @ [NUL])
      else if c = BSL then
        (case cs of
           [] \<Rightarrow> OutOfBounds
         | d # ds \<Rightarrow>
             if d = CHR ''a'' then unescape_loop ds (p + 2) (dest @ [CHR 0x07])
             else if d = CHR ''b'' then unescape_loop ds (p + 2) (dest @ [CHR 0x08])
             else if d = CHR ''f'' then unescape_loop ds (p + 2) (dest @ [CHR 0x0C])
             else if d = CHR ''n'' then unescape_loop ds (p + 2) (dest @ [NL])
             else if d = CHR ''r'' then unescape_loop ds (p + 2) (dest @ [CHR 0x0D])
             else if d = CHR ''t'' then unescape_loop ds (p + 2) (dest @ [CHR 0x09])
             else if d = CHR ''v'' then unescape_loop ds (p + 2) (dest @ [CHR 0x0B])
             else if d = BSL then unescape_loop ds (p + 2) (dest @ [BSL])
             else if d = CHR ''x'' then
               (case ds of
                  s0 # s1 # es \<Rightarrow>
                    if snd (strtol16 [s0, s1, NUL]) \<noteq> 2 then Invalid
                    else unescape_loop es (p + 4)
                           (dest @ [char_of (nat (fst (strtol16 [s0, s1, NUL]) mod 256))])
                | _ \<Rightarrow> OutOfBounds)
             else unescape_loop ds (p + 2) (dest @ [d]))
      else unescape_loop cs (p + 1) (dest @ [c]))"

definition unescape_string :: "string \<Rightarrow> unescaped" where
  "unescape_string src = unescape_loop src 0 []"

section \<open>nvram\_build: \<^verbatim>\<open>build_file\<close>, \<^verbatim>\<open>fixup_record_count\<close> and \<^verbatim>\<open>main\<close>\<close>

text \<open>
  The messages of \<^verbatim>\<open>build_file\<close> on the standard error stream, with the line number.
\<close>

datatype build_diag =
    MissingEquals nat
  | EmptyName nat
  | BadName nat
  | BadValue nat
  | ReadProblem

text \<open>
  \<^verbatim>\<open>unescape_string\<close> checks no bound. A call that reads beyond the end of the input
  buffer, or that stores more than \<^verbatim>\<open>r_name\<close> (257 bytes) or \<^verbatim>\<open>r_value\<close> (65537 bytes)
  hold, has no defined behaviour in C; the model stops there with a fault.
\<close>

datatype build_fault = SrcOverrun | DestOverrun

text \<open>
  Lines 217 to 229 of \<^verbatim>\<open>build_file\<close>: the record built in \<^verbatim>\<open>output_buffer\<close> from the
  unescaped name and value (\<open>name\<close> and \<open>value\<close> are the memory of \<^verbatim>\<open>r_name\<close> and
  \<^verbatim>\<open>r_value\<close>). \<^verbatim>\<open>& 0xFF\<close> and \<^verbatim>\<open>& 0xFFFF\<close> are written as \<open>mod\<close>.
\<close>

definition make_record :: "string \<Rightarrow> string \<Rightarrow> string" where
  "make_record name val =
     (let len = strlen name mod 256;
          vlen = strlen val mod 65536
      in [char_of len] @ take len name
         @ [char_of (vlen mod 256), char_of ((vlen div 256) mod 256)] @ take vlen val)"

text \<open>What one iteration of the loop over the lines does besides moving \<^verbatim>\<open>p_start\<close>.\<close>

datatype line_outcome = Skipped build_diag | Written string | Faulted build_fault

text \<open>
  One iteration of the \<^verbatim>\<open>while ( p_start < p_end )\<close> loop of \<^verbatim>\<open>build_file\<close>: the buffer
  after the two stores of NUL, the next \<^verbatim>\<open>p_start\<close>, and the outcome. Both \<^verbatim>\<open>strchr\<close>
  calls search the C string at \<^verbatim>\<open>p_start\<close>, which ends at the next NUL of the buffer.
\<close>

definition build_line :: "string \<Rightarrow> nat \<Rightarrow> nat \<Rightarrow> string \<times> nat \<times> line_outcome" where
  "build_line buffer p_start line_number =
     (let p_newline =
            (case strchr (drop p_start buffer) NL of
               Some k \<Rightarrow> p_start + k
             | None \<Rightarrow> p_start + strlen (drop p_start buffer))
      in case strchr (drop p_start buffer) EQUALS of
           None \<Rightarrow> (buffer, p_newline + 1, Skipped (MissingEquals line_number))
         | Some e \<Rightarrow>
             (let p_equals = p_start + e;
                  buffer = (buffer[p_newline := NUL])[p_equals := NUL];
                  name = drop p_start buffer;
                  val = drop (p_equals + 1) buffer
              in (buffer, p_newline + 1,
                  if strlen name = 0 then Skipped (EmptyName line_number)
                  else case unescape_string name of
                         Invalid \<Rightarrow> Skipped (BadName line_number)
                       | OutOfBounds \<Rightarrow> Faulted SrcOverrun
                       | Unescaped _ r_name \<Rightarrow>
                           if length r_name > 256 + 1 then Faulted DestOverrun
                           else case unescape_string val of
                                  Invalid \<Rightarrow> Skipped (BadValue line_number)
                                | OutOfBounds \<Rightarrow> Faulted SrcOverrun
                                | Unescaped _ r_value \<Rightarrow>
                                    if length r_value > 65536 + 1 then Faulted DestOverrun
                                    else Written (make_record r_name r_value))))"

text \<open>
  The result of \<^verbatim>\<open>build_file\<close>: the value returned (the number of records, or -1), the
  records written to the output file (one per \<^verbatim>\<open>fwrite\<close>), the messages, and the static
  input buffer as the call leaves it; or a fault. Failures of the file system (\<^verbatim>\<open>fopen\<close>,
  \<^verbatim>\<open>fwrite\<close>) are outside the model.
\<close>

datatype build_result = Built int "string list" "build_diag list" string | Fault build_fault

function build_loop ::
  "string \<Rightarrow> nat \<Rightarrow> nat \<Rightarrow> nat \<Rightarrow> int \<Rightarrow> string list \<Rightarrow> build_diag list \<Rightarrow> build_result" where
  "build_loop buffer p_start p_end line_number record_count written diags =
     (if p_start < p_end then
        (case snd (snd (build_line buffer p_start (line_number + 1))) of
           Skipped d \<Rightarrow>
             build_loop (fst (build_line buffer p_start (line_number + 1)))
               (fst (snd (build_line buffer p_start (line_number + 1)))) p_end
               (line_number + 1) record_count written (diags @ [d])
         | Written r \<Rightarrow>
             build_loop (fst (build_line buffer p_start (line_number + 1)))
               (fst (snd (build_line buffer p_start (line_number + 1)))) p_end
               (line_number + 1) (record_count + 1) (written @ [r]) diags
         | Faulted f \<Rightarrow> Fault f)
      else Built record_count written diags buffer)"
  by pat_completeness auto

termination build_loop
  by (relation "measure (\<lambda>(buffer, p_start, p_end, rest). p_end - p_start)")
     (simp_all add: build_line_def Let_def diff_less_mono2 split: option.split)

declare build_loop.simps [simp del]

text \<open>
  The loop of lines 156 to 161: a backslash followed by a newline becomes a backslash
  followed by \<^verbatim>\<open>n\<close>. The test looks at \<^verbatim>\<open>buffer[i]\<close> and \<^verbatim>\<open>buffer[i+1]\<close> only.
\<close>

function subst_loop :: "string \<Rightarrow> nat \<Rightarrow> nat \<Rightarrow> string" where
  "subst_loop buffer i maxi =
     (if i < maxi then
        subst_loop
          (if buffer ! i = BSL \<and> buffer ! (i + 1) = NL then buffer[i + 1 := CHR ''n''] else buffer)
          (i + 1) maxi
      else buffer)"
  by pat_completeness auto

termination subst_loop
  by (relation "measure (\<lambda>(buffer, i, maxi). maxi - i)") auto

declare subst_loop.simps [simp del]

text \<open>
  Lines 152 to 241 of \<^verbatim>\<open>build_file\<close>: what it does once the file is in the buffer.
\<close>

definition build_from_buffer :: "string \<Rightarrow> build_result" where
  "build_from_buffer buffer =
     (let buffer = subst_loop buffer 0 (strlen buffer)
      in build_loop buffer 0 (strlen buffer) 0 0 [] [])"

text \<open>
  \<^verbatim>\<open>build_file\<close>, given the static input buffer as the previous call left it (131073 bytes,
  all zero before the first call) and the bytes of the input file. \<^verbatim>\<open>fread\<close> overwrites
  the first bytes of the buffer, and the code stores a NUL in its last byte only.
\<close>

definition build_file :: "string \<Rightarrow> string \<Rightarrow> build_result" where
  "build_file buffer0 file =
     (let bytes_read = min (length file) (128 * 1024 + 1);
          buffer = take bytes_read file @ drop bytes_read buffer0
      in if bytes_read \<le> 128 * 1024 then build_from_buffer (buffer[128 * 1024 := NUL])
         else Built (- 1) [] [ReadProblem] buffer)"

text \<open>
  A write of \<open>bytes\<close> at offset \<open>off\<close> of a file (\<^verbatim>\<open>fseek\<close>, then \<^verbatim>\<open>fwrite\<close>): bytes there
  are replaced, a gap before \<open>off\<close> reads as zeros.
\<close>

definition write_at :: "string \<Rightarrow> nat \<Rightarrow> string \<Rightarrow> string" where
  "write_at file off bytes =
     take off (file @ replicate (off - length file) NUL) @ bytes @ drop (off + length bytes) file"

text \<open>
  \<^verbatim>\<open>fixup_record_count\<close>: the status returned and the output file. \<^verbatim>\<open>& 0xFF\<close> and
  \<^verbatim>\<open>>> 8\<close> are written as \<open>mod\<close> and \<open>div\<close>.
\<close>

definition fixup_record_count :: "string \<Rightarrow> int \<Rightarrow> int \<times> string" where
  "fixup_record_count output_file record_count =
     (0, write_at output_file 6
           [char_of (nat (record_count mod 256)), char_of (nat ((record_count div 256) mod 256))])"

text \<open>\<^verbatim>\<open>output_header\<close> writes these eight bytes.\<close>

definition header :: string where
  "header = ''DD-WRT'' @ [NUL, NUL]"

text \<open>
  The loop of \<^verbatim>\<open>main\<close> over the input files: the static buffer of \<^verbatim>\<open>build_file\<close>, the
  records written to the output file so far, \<^verbatim>\<open>record_count\<close> and \<^verbatim>\<open>ret\<close> are threaded
  through the calls.
\<close>

fun build_files ::
  "string list \<Rightarrow> string \<Rightarrow> string list \<Rightarrow> int \<Rightarrow> int \<Rightarrow> build_fault + (string list \<times> int \<times> int)" where
  "build_files [] buffer records record_count ret = Inr (records, record_count, ret)"
| "build_files (file # files) buffer records record_count ret =
     (case build_file buffer file of
        Fault f \<Rightarrow> Inl f
      | Built cnt written diags buffer' \<Rightarrow>
          build_files files buffer' (records @ written)
            (if cnt < 0 then record_count else record_count + cnt)
            (if cnt < 0 then 1 else ret))"

text \<open>
  \<^verbatim>\<open>main\<close> of nvram\_build on the contents of its input files: the exit status and the
  output file (\<open>None\<close> when no file was opened). The output file is the header followed by
  the records in the order of writing; the count is patched in only when \<^verbatim>\<open>ret\<close> is 0.
\<close>

definition main_build :: "string list \<Rightarrow> build_fault + (int \<times> string option)" where
  "main_build files =
     (if files = [] then Inr (1, None)
      else case build_files files (replicate (128 * 1024 + 1) NUL) [] 0 0 of
             Inl f \<Rightarrow> Inl f
           | Inr (records, record_count, ret) \<Rightarrow>
               if ret = 0 then
                 (let (sts, output_file) = fixup_record_count (header @ concat records) record_count
                  in Inr (if sts \<noteq> 0 then 1 else ret, Some output_file))
               else Inr (ret, Some (header @ concat records)))"

text \<open>
  The image that the writing code produces for a list of names and values held as C
  strings: the header, the records of \<^const>\<open>make_record\<close>, and the count patched in by
  \<^const>\<open>fixup_record_count\<close>.
\<close>

definition write_image :: "(string \<times> string) list \<Rightarrow> string" where
  "write_image recs =
     snd (fixup_record_count
            (header @ concat (map (\<lambda>(name, val). make_record (name @ [NUL]) (val @ [NUL])) recs))
            (int (length recs)))"

section \<open>nvram\_dump: \<^verbatim>\<open>dump_file\<close>\<close>

text \<open>The messages of \<^verbatim>\<open>dump_file\<close> on the standard error stream, with the record number.\<close>

datatype dump_diag =
    HeaderError
  | NameLengthError nat
  | NameError nat
  | ValueLengthError nat
  | ValueError nat
  | NameCut nat
  | NameNonPrintable nat
  | ValueCut nat

text \<open>
  Lines 592 to 609 of \<^verbatim>\<open>dump_file\<close>, for the name and the value as they stand
  NUL-terminated in their buffers: the line printed on the standard output, and the messages
  on the standard error stream.
\<close>

definition print_line :: "esc_mode \<Rightarrow> string \<Rightarrow> string \<Rightarrow> string" where
  "print_line escape_mode name val =
     (let esc_name = snd (escape_string ESC_FULL name 513);
          esc_value = snd (escape_string escape_mode val (65536 * 2 + 1))
      in esc_name @ [EQUALS] @ esc_value @ [NL])"

definition print_diags :: "esc_mode \<Rightarrow> nat \<Rightarrow> string \<Rightarrow> string \<Rightarrow> dump_diag list" where
  "print_diags escape_mode record name val =
     (let (copied, esc_name) = escape_string ESC_FULL name 513;
          err1 = (if copied < strlen name then [NameCut record]
                  else if strlen name < length esc_name then [NameNonPrintable record]
                  else []);
          (copied, esc_value) = escape_string escape_mode val (65536 * 2 + 1);
          err2 = (if copied < strlen val then [ValueCut record] else [])
      in err1 @ err2)"

text \<open>
  The body of the \<^verbatim>\<open>while ( record < record_count )\<close> loop, on the rest \<open>f\<close> of the input
  file: \<^verbatim>\<open>fread( buffer, 1, n, f )\<close> delivers \<^term>\<open>take n f\<close> and leaves \<^term>\<open>drop n f\<close>.
  The result is the message of the failed read, or the line printed on the standard output,
  the messages and the rest of the file.
\<close>

definition dump_record ::
  "esc_mode \<Rightarrow> nat \<Rightarrow> string \<Rightarrow> dump_diag + (string \<times> dump_diag list \<times> string)" where
  "dump_record escape_mode record f =
     (if length (take 1 f) \<noteq> 1 then Inl (NameLengthError record)
      else
        (let name_len = (of_char (f ! 0) :: nat);
             f = drop 1 f
         in if length (take name_len f) \<noteq> name_len then Inl (NameError record)
            else
              (let name = take name_len f @ [NUL];
                   f = drop name_len f
               in if length (take 2 f) \<noteq> 2 then Inl (ValueLengthError record)
                  else
                    (let value_len = (of_char (f ! 1) :: nat) * 256 + of_char (f ! 0);
                         f = drop 2 f
                     in if value_len > 0 \<and> length (take value_len f) \<noteq> value_len
                        then Inl (ValueError record)
                        else
                          (let val = (if value_len > 0 then take value_len f @ [NUL] else [NUL]);
                               f = (if value_len > 0 then drop value_len f else f)
                           in Inr (print_line escape_mode name val,
                                   print_diags escape_mode record name val, f))))))"

function dump_loop ::
  "esc_mode \<Rightarrow> string \<Rightarrow> nat \<Rightarrow> nat \<Rightarrow> string \<Rightarrow> dump_diag list \<Rightarrow> int \<times> string \<times> dump_diag list" where
  "dump_loop escape_mode f record record_count out err =
     (if record < record_count then
        (case dump_record escape_mode (record + 1) f of
           Inl d \<Rightarrow> (1, out, err @ [d])
         | Inr (line, ds, f') \<Rightarrow>
             dump_loop escape_mode f' (record + 1) record_count (out @ line) (err @ ds))
      else (0, out, err))"
  by pat_completeness auto

termination dump_loop
  by (relation "measure (\<lambda>(escape_mode, f, record, record_count, rest). record_count - record)")
     auto

declare dump_loop.simps [simp del]

text \<open>
  \<^verbatim>\<open>dump_file\<close> on the bytes of the input file: the status returned, the text written to
  the standard output and the messages.
\<close>

definition dump_file :: "esc_mode \<Rightarrow> string \<Rightarrow> int \<times> string \<times> dump_diag list" where
  "dump_file escape_mode file =
     (if length (take 8 file) \<noteq> 8 \<or> take 6 file \<noteq> ''DD-WRT'' then (1, [], [HeaderError])
      else dump_loop escape_mode (drop 8 file) 0
             ((of_char (file ! 7) :: nat) * 256 + of_char (file ! 6)) [] [])"

text \<open>
  The bytes of one record in an image, as the reads of \<^const>\<open>dump_record\<close> take them
  apart: the length of the name in one byte, the name, the length of the value in two bytes
  (low byte first), the value.
\<close>

definition record_bytes :: "string \<times> string \<Rightarrow> string" where
  "record_bytes r =
     [char_of (length (fst r))] @ fst r
     @ [char_of (length (snd r) mod 256), char_of (length (snd r) div 256)] @ snd r"

text \<open>The text \<^const>\<open>escape_loop\<close> stores for a string when nothing is cut off.\<close>

definition escaped :: "esc_mode \<Rightarrow> string \<Rightarrow> string" where
  "escaped escape_mode s = concat (map (tmpbuf escape_mode) s)"

text \<open>
  The line that nvram\_dump prints for a name and a value in full mode when nothing is cut
  off.
\<close>

definition text_line :: "string \<times> string \<Rightarrow> string" where
  "text_line r = escaped ESC_FULL (fst r) @ [EQUALS] @ escaped ESC_FULL (snd r) @ [NL]"

text \<open>
  The names and values that the text form carries: no NUL in either (both tools handle them
  as C strings), a name that is not empty (\<^verbatim>\<open>build_file\<close> skips such lines) and has no
  \<^verbatim>\<open>=\<close> (which is not escaped), and a value that does not end in a backslash.
\<close>

definition representable :: "string \<times> string \<Rightarrow> bool" where
  "representable r =
     (fst r \<noteq> [] \<and> NUL \<notin> set (fst r) \<and> EQUALS \<notin> set (fst r) \<and> NUL \<notin> set (snd r)
      \<and> (snd r = [] \<or> last (snd r) \<noteq> BSL))"

section \<open>Properties of \<^verbatim>\<open>escape_string\<close>\<close>


lemma tmpbuf_nonempty: "tmpbuf mode c \<noteq> []"
  by (simp add: tmpbuf_def sprintf_hex_def)

lemma escape_loop_steps:
  assumes "escape_loop mode maxsz cs i j dest = (i', dest')" and "j = length dest"
    and "int (length dest) < maxsz"
  shows "\<exists>k\<le>length cs. i' = i + k \<and> dest' = dest @ concat (map (tmpbuf mode) (take k cs))
           \<and> int (length dest') < maxsz
           \<and> (k < length cs \<longrightarrow> maxsz \<le> int (length dest' + length (tmpbuf mode (cs ! k))))"
  using assms
proof (induction cs arbitrary: i j dest)
  case Nil
  then show ?case by simp
next
  case (Cons c cs)
  show ?case
  proof (cases "int (j + length (tmpbuf mode c)) \<ge> maxsz")
    case True
    with Cons.prems have "i' = i" "dest' = dest" by simp_all
    with True Cons.prems show ?thesis
      by (intro exI [of _ 0]) simp
  next
    case False
    with Cons.prems
    have run: "escape_loop mode maxsz cs (i + 1) (j + length (tmpbuf mode c)) (dest @ tmpbuf mode c)
                 = (i', dest')"
      by simp
    from False Cons.prems
    have inv: "j + length (tmpbuf mode c) = length (dest @ tmpbuf mode c)"
         "int (length (dest @ tmpbuf mode c)) < maxsz"
      by simp_all
    from Cons.IH [OF run inv]
    obtain k where k: "k \<le> length cs" "i' = i + 1 + k"
      "dest' = (dest @ tmpbuf mode c) @ concat (map (tmpbuf mode) (take k cs))"
      "int (length dest') < maxsz"
      "k < length cs \<longrightarrow> maxsz \<le> int (length dest' + length (tmpbuf mode (cs ! k)))"
      by blast
    then show ?thesis
      by (intro exI [of _ "Suc k"]) simp
  qed
qed

lemma length_concat_take_le:
  "length (concat (map f (take k xs))) \<le> length (concat (map f xs))"
proof -
  have "concat (map f xs) = concat (map f (take k xs)) @ concat (map f (drop k xs))"
    by (metis append_take_drop_id concat_append map_append)
  then show ?thesis by simp
qed

lemma take_Suc_concat:
  "k < length xs \<Longrightarrow>
   concat (map f (take (Suc k) xs)) = concat (map f (take k xs)) @ f (xs ! k)"
  by (simp add: take_Suc_conv_app_nth)

text \<open>
  Claim C9. For every input string and every capacity \<open>max > 0\<close>, the text that
  \<^verbatim>\<open>escape_string\<close> stores is shorter than \<open>max\<close> (so that, with the NUL that ends it,
  it stays inside a destination of \<open>max\<close> bytes); it is the concatenation of the complete
  escape sequences of the first \<open>i\<close> input bytes, where \<open>i\<close> is the value returned; the loop
  stops only before a sequence that would not fit; and \<open>i\<close> is the length of the input when
  the whole escaped text fits.
\<close>

theorem escape_string_truncation_safe:
  assumes "0 < maxsz" and "escape_string mode src maxsz = (i, dest)"
  shows "int (length dest) < maxsz
     \<and> i \<le> strlen src
     \<and> dest = concat (map (tmpbuf mode) (take i src))
     \<and> (i < strlen src \<longrightarrow> maxsz \<le> int (length dest + length (tmpbuf mode (src ! i))))
     \<and> (int (length (concat (map (tmpbuf mode) (take (strlen src) src)))) < maxsz
          \<longrightarrow> i = strlen src)"
proof -
  let ?cs = "take (strlen src) src"
  have len: "length ?cs = strlen src"
    by (simp add: strlen_def) (metis length_takeWhile_le min.absorb2 min.commute)
  from assms have "escape_loop mode maxsz ?cs 0 0 [] = (i, dest)"
    by (simp add: escape_string_def)
  moreover have "0 = length ([]::string)" "int (length ([]::string)) < maxsz"
    using assms(1) by simp_all
  ultimately obtain k where k: "k \<le> length ?cs" "i = 0 + k"
    "dest = [] @ concat (map (tmpbuf mode) (take k ?cs))" "int (length dest) < maxsz"
    "k < length ?cs \<longrightarrow> maxsz \<le> int (length dest + length (tmpbuf mode (?cs ! k)))"
    using escape_loop_steps [of mode maxsz ?cs 0 0 "[]" i dest] by blast
  from k len have i_le: "i \<le> strlen src" by simp
  with k have dest: "dest = concat (map (tmpbuf mode) (take i src))"
    by (simp add: min.absorb1)
  from k len have stop: "i < strlen src \<longrightarrow> maxsz \<le> int (length dest + length (tmpbuf mode (src ! i)))"
    by simp
  have "i = strlen src"
    if fits: "int (length (concat (map (tmpbuf mode) ?cs))) < maxsz"
  proof (rule ccontr)
    assume "i \<noteq> strlen src"
    with i_le have lt: "i < strlen src" by simp
    with k len have "maxsz \<le> int (length (concat (map (tmpbuf mode) (take (Suc i) ?cs))))"
      by (simp add: take_Suc_concat)
    also have "\<dots> \<le> int (length (concat (map (tmpbuf mode) ?cs)))"
      using length_concat_take_le [of "tmpbuf mode" "Suc i" ?cs] by simp
    finally show False using fits by simp
  qed
  with k i_le dest stop show ?thesis by blast
qed

theorem escape_string_truncation_safe_witness:
  "(0::int) < 3
   \<and> escape_string ESC_FULL (''a'' @ [NL, NUL]) 3 = (1, ''a'')
   \<and> int (length ''a'') < 3
   \<and> 1 \<le> strlen (''a'' @ [NL, NUL])
   \<and> ''a'' = concat (map (tmpbuf ESC_FULL) (take 1 (''a'' @ [NL, NUL])))
   \<and> 1 < strlen (''a'' @ [NL, NUL])
   \<and> 3 \<le> int (length ''a'' + length (tmpbuf ESC_FULL ((''a'' @ [NL, NUL]) ! 1)))"
proof -
  have run: "escape_string ESC_FULL (''a'' @ [NL, NUL]) 3 = (1, ''a'')"
    by (simp add: escape_string_def strlen_def tmpbuf_def isascii_def iscntrl_def)
  have pos: "(0::int) < 3" by simp
  have more: "1 < strlen (''a'' @ [NL, NUL])" by (simp add: strlen_def)
  from escape_string_truncation_safe [OF pos run] pos run more show ?thesis
    by blast
qed

section \<open>\<^verbatim>\<open>unescape_string\<close> and \<^verbatim>\<open>build_file\<close> on particular inputs\<close>

lemmas ctype_defs = isascii_def iscntrl_def isspace_def isxdigit_def xdigit_val_def

text \<open>
  Claim C10 says that \<^verbatim>\<open>unescape_string\<close> reads no further than the NUL that ends its
  input. The code does not: after a backslash it steps to the next byte without looking for
  the end of the string, and the \<^verbatim>\<open>default\<close> branch copies that byte and steps over it
  even when it is the terminator. For the string that is a single backslash, in a buffer
  that goes on with \<^verbatim>\<open>AB\<close>, the loop ends at offset 4, three bytes after the terminator at
  offset 1, and has stored the terminator and \<^verbatim>\<open>AB\<close>. When the buffer ends with the
  string, the calls read beyond it.
\<close>

theorem unescape_string_passes_terminator:
  "unescape_string ([BSL, NUL] @ ''AB'' @ [NUL]) = Unescaped 4 ([NUL] @ ''AB'' @ [NUL])
   \<and> unescape_string [BSL, NUL] = OutOfBounds
   \<and> unescape_string [BSL, CHR ''x'', NUL] = OutOfBounds"
  by (simp add: unescape_string_def)

text \<open>
  Claim C4 says that \<^verbatim>\<open>\x\<close> fails unless two hexadecimal digits follow. The code
  hands the two characters to \<^verbatim>\<open>strtol\<close> and requires only that both are consumed, and
  \<^verbatim>\<open>strtol\<close> takes white space and a sign before the digits: \<^verbatim>\<open>\x-5\<close> gives the
  byte 0xFB, \<^verbatim>\<open>\x 5\<close> the byte 0x05 and \<^verbatim>\<open>\x+A\<close> the byte 0x0A, all with status 0.
\<close>

theorem unescape_string_lenient_hex:
  "unescape_string ([BSL] @ ''x-5'' @ [NUL]) = Unescaped 4 [CHR 0xFB, NUL]
   \<and> unescape_string ([BSL] @ ''x 5'' @ [NUL]) = Unescaped 4 [CHR 0x05, NUL]
   \<and> unescape_string ([BSL] @ ''x+A'' @ [NUL]) = Unescaped 4 [CHR 0x0A, NUL]"
  by (simp add: unescape_string_def strtol16_def ctype_defs char_of_eq_iff)

lemma build_file_first:
  assumes "length file \<le> 128 * 1024"
  shows "build_file (replicate (128 * 1024 + 1) NUL) file
           = build_from_buffer (file @ replicate (128 * 1024 + 1 - length file) NUL)"
proof -
  let ?b = "file @ replicate (128 * 1024 + 1 - length file) NUL"
  have "?b ! (128 * 1024) = NUL"
    using assms by (simp add: nth_append)
  then have "?b[128 * 1024 := NUL] = ?b"
    by (metis list_update_id)
  with assms show ?thesis
    by (simp add: build_file_def Let_def min.absorb1)
qed

lemma build_from_buffer_abc: "build_from_buffer (''abc'' @ [NL] @ ''x=y'' @ [NL] @ NUL # zs)
   = Built 1 [[CHR 0x03] @ ''abc'' @ [CHR 0x02, NUL] @ ''y'' @ [NL]] [MissingEquals 2, MissingEquals 3]
       (''abc'' @ [NUL] @ ''x'' @ [NUL] @ ''y'' @ [NL] @ NUL # zs)"
  by (simp add: build_from_buffer_def build_loop.simps subst_loop.simps strlen_def build_line_def
        unescape_string_def make_record_def char_of_eq_iff take_bit_eq_mod)

text \<open>
  Claim C8 says that a line without \<^verbatim>\<open>=\<close> is reported and skipped and that the lines after
  it are processed. \<^verbatim>\<open>strchr( p_start, '=' )\<close> searches the rest of the buffer, not the
  line: for the two lines \<^verbatim>\<open>abc\<close> and \<^verbatim>\<open>x=y\<close> it finds the \<^verbatim>\<open>=\<close> of the second line,
  no message is given for line 1, and one record is written with the name \<^verbatim>\<open>abc\<close> and the
  value \<^verbatim>\<open>y\<close> followed by a newline. The second line yields two messages and no record.
\<close>

theorem build_file_line_without_equals:
  "build_file (replicate (128 * 1024 + 1) NUL) (''abc'' @ [NL] @ ''x=y'' @ [NL])
     = Built 1 [[CHR 0x03] @ ''abc'' @ [CHR 0x02, NUL] @ ''y'' @ [NL]]
         [MissingEquals 2, MissingEquals 3]
         (''abc'' @ [NUL] @ ''x'' @ [NUL] @ ''y'' @ [NL] @ replicate (128 * 1024 + 1 - 8) NUL)"
proof -
  have "replicate (128 * 1024 + 1 - 8) NUL = NUL # replicate (128 * 1024 - 8) NUL"
    by (simp flip: replicate_Suc)
  then show ?thesis
    using build_from_buffer_abc [of "replicate (128 * 1024 - 8) NUL"]
    by (subst build_file_first) simp_all
qed

lemma build_from_buffer_ab_bsl:
  "build_from_buffer (''a=b'' @ [BSL, BSL, NL] @ ''c=d'' @ [NL] @ NUL # zs)
     = Built 1 [[CHR 0x01] @ ''a'' @ [CHR 0x06, NUL] @ ''b'' @ [BSL] @ ''nc=d''] []
         (''a'' @ [NUL] @ ''b'' @ [BSL, BSL] @ ''nc=d'' @ [NUL] @ NUL # zs)"
  by (simp add: build_from_buffer_def build_loop.simps subst_loop.simps strlen_def build_line_def
        unescape_string_def make_record_def char_of_eq_iff take_bit_eq_mod)

text \<open>
  Claim C2 says that text rendered in human mode is parsed back to the original records,
  a doubled backslash before a newline being left alone. The substitution loop of
  \<^verbatim>\<open>build_file\<close> tests \<^verbatim>\<open>buffer[i]\<close> and \<^verbatim>\<open>buffer[i+1]\<close> only, so the second backslash
  of a doubled one, followed by the newline that ends the line, is rewritten too. The records
  \<^verbatim>\<open>a\<close>, whose value is \<^verbatim>\<open>b\<close> and a backslash, and \<^verbatim>\<open>c\<close> with the value \<^verbatim>\<open>d\<close> are
  dumped in human mode as two lines, and \<^verbatim>\<open>main\<close> of nvram\_build turns these into one
  record whose value is the six bytes \<^verbatim>\<open>b\nc=d\<close> (a backslash and the letter n, no newline).
\<close>

theorem human_mode_final_backslash:
  "dump_file ESC_HUMAN
     (''DD-WRT'' @ [CHR 0x02, NUL] @ [CHR 0x01] @ ''a'' @ [CHR 0x02, NUL] @ ''b'' @ [BSL]
        @ [CHR 0x01] @ ''c'' @ [CHR 0x01, NUL] @ ''d'')
     = (0, ''a=b'' @ [BSL, BSL, NL] @ ''c=d'' @ [NL], [])
   \<and> main_build [''a=b'' @ [BSL, BSL, NL] @ ''c=d'' @ [NL]]
     = Inr (0, Some (''DD-WRT'' @ [CHR 0x01, NUL] @ [CHR 0x01] @ ''a'' @ [CHR 0x06, NUL]
                      @ ''b'' @ [BSL] @ ''nc=d''))"
proof -
  have dump: "dump_file ESC_HUMAN
     (''DD-WRT'' @ [CHR 0x02, NUL] @ [CHR 0x01] @ ''a'' @ [CHR 0x02, NUL] @ ''b'' @ [BSL]
        @ [CHR 0x01] @ ''c'' @ [CHR 0x01, NUL] @ ''d'')
     = (0, ''a=b'' @ [BSL, BSL, NL] @ ''c=d'' @ [NL], [])"
    by (simp add: dump_file_def dump_loop.simps dump_record_def print_line_def print_diags_def
          escape_string_def strlen_def tmpbuf_def isascii_def iscntrl_def)
  have "replicate (128 * 1024 + 1 - 10) NUL = NUL # replicate (128 * 1024 - 10) NUL"
    by (simp flip: replicate_Suc)
  then have "build_file (replicate (128 * 1024 + 1) NUL) (''a=b'' @ [BSL, BSL, NL] @ ''c=d'' @ [NL])
     = Built 1 [[CHR 0x01] @ ''a'' @ [CHR 0x06, NUL] @ ''b'' @ [BSL] @ ''nc=d''] []
         (''a'' @ [NUL] @ ''b'' @ [BSL, BSL] @ ''nc=d'' @ [NUL] @ NUL # replicate (128 * 1024 - 10) NUL)"
    using build_from_buffer_ab_bsl [of "replicate (128 * 1024 - 10) NUL"]
    by (subst build_file_first) simp_all
  then have "main_build [''a=b'' @ [BSL, BSL, NL] @ ''c=d'' @ [NL]]
     = Inr (0, Some (''DD-WRT'' @ [CHR 0x01, NUL] @ [CHR 0x01] @ ''a'' @ [CHR 0x06, NUL]
                      @ ''b'' @ [BSL] @ ''nc=d''))"
    by (simp add: main_build_def header_def fixup_record_count_def write_at_def
          char_of_eq_iff take_bit_eq_mod)
  with dump show ?thesis by blast
qed

theorem human_mode_final_backslash_witness:
  "fst (dump_file ESC_HUMAN
     (''DD-WRT'' @ [CHR 0x02, NUL] @ [CHR 0x01] @ ''a'' @ [CHR 0x02, NUL] @ ''b'' @ [BSL]
        @ [CHR 0x01] @ ''c'' @ [CHR 0x01, NUL] @ ''d'')) = 0
   \<and> main_build [fst (snd (dump_file ESC_HUMAN
     (''DD-WRT'' @ [CHR 0x02, NUL] @ [CHR 0x01] @ ''a'' @ [CHR 0x02, NUL] @ ''b'' @ [BSL]
        @ [CHR 0x01] @ ''c'' @ [CHR 0x01, NUL] @ ''d'')))]
     \<noteq> Inr (0, Some (''DD-WRT'' @ [CHR 0x02, NUL] @ [CHR 0x01] @ ''a'' @ [CHR 0x02, NUL] @ ''b'' @ [BSL]
        @ [CHR 0x01] @ ''c'' @ [CHR 0x01, NUL] @ ''d''))"
  using human_mode_final_backslash by simp

section \<open>\<^verbatim>\<open>unescape_string\<close> undoes \<^verbatim>\<open>escape_string\<close>\<close>

lemma hex_digit_props:
  assumes "n < 16"
  shows "xdigit_val (hex_digit n) = n" and "isxdigit (hex_digit n)"
    and "\<not> isspace (hex_digit n)" and "hex_digit n \<noteq> CHR ''-''" and "hex_digit n \<noteq> CHR ''+''"
    and "hex_digit n \<noteq> NUL" and "hex_digit n \<noteq> NL" and "hex_digit n \<noteq> EQUALS"
    and "hex_digit n \<noteq> BSL"
proof -
  have every: "\<forall>k\<in>set [0..<16]. xdigit_val (hex_digit k) = k \<and> isxdigit (hex_digit k)
      \<and> \<not> isspace (hex_digit k) \<and> hex_digit k \<noteq> CHR ''-'' \<and> hex_digit k \<noteq> CHR ''+''
      \<and> hex_digit k \<noteq> NUL \<and> hex_digit k \<noteq> NL \<and> hex_digit k \<noteq> EQUALS \<and> hex_digit k \<noteq> BSL"
    by code_simp
  from assms have "n \<in> set [0..<16]"
    by (simp only: set_upt) simp
  with every show "xdigit_val (hex_digit n) = n" and "isxdigit (hex_digit n)"
    and "\<not> isspace (hex_digit n)" and "hex_digit n \<noteq> CHR ''-''" and "hex_digit n \<noteq> CHR ''+''"
    and "hex_digit n \<noteq> NUL" and "hex_digit n \<noteq> NL" and "hex_digit n \<noteq> EQUALS"
    and "hex_digit n \<noteq> BSL"
    by blast+
qed

lemma strtol16_hex_digits:
  assumes "a < 16" and "b < 16"
  shows "strtol16 [hex_digit a, hex_digit b, NUL] = (int (16 * a + b), 2)"
proof -
  have "\<not> isxdigit NUL" by (simp add: isxdigit_def)
  with hex_digit_props [OF assms(1)] hex_digit_props [OF assms(2)] show ?thesis
    by (simp add: strtol16_def)
qed

lemma of_char_less_256: "(of_char c :: nat) < 256"
  by (metis of_char_mod_256 mod_less_divisor zero_less_numeral)

lemma unescape_loop_sprintf_hex:
  "unescape_loop (sprintf_hex c @ rest) p dest = unescape_loop rest (p + 4) (dest @ [c])"
proof -
  let ?k = "of_char c :: nat"
  have hi: "?k div 16 < 16" using of_char_less_256 [of c] by presburger
  have lo: "?k mod 16 < 16" by simp
  have "char_of (nat (int (16 * (?k div 16) + ?k mod 16) mod 256)) = c"
    by (simp add: nat_mod_distrib)
  with strtol16_hex_digits [OF hi lo] show ?thesis
    by (simp add: sprintf_hex_def)
qed

lemma unescape_loop_tmpbuf:
  assumes "c \<noteq> NUL"
  shows "unescape_loop (tmpbuf ESC_FULL c @ rest) p dest
           = unescape_loop rest (p + length (tmpbuf ESC_FULL c)) (dest @ [c])"
proof -
  have hex: "length (sprintf_hex c) = 4" by (simp add: sprintf_hex_def)
  have bsl: "\<not> iscntrl BSL" by (simp add: iscntrl_def)
  show ?thesis
    using assms by (simp add: tmpbuf_def unescape_loop_sprintf_hex hex bsl)
qed

lemma unescape_loop_escaped:
  assumes "NUL \<notin> set s"
  shows "unescape_loop (escaped ESC_FULL s @ NUL # more) p dest
           = Unescaped (p + length (escaped ESC_FULL s)) (dest @ s @ [NUL])"
  using assms
proof (induction s arbitrary: p dest)
  case Nil
  then show ?case by (simp add: escaped_def)
next
  case (Cons c s)
  then have "c \<noteq> NUL" and "NUL \<notin> set s" by auto
  then show ?case
    using Cons.IH [of "p + length (tmpbuf ESC_FULL c)" "dest @ [c]"]
    by (simp add: escaped_def unescape_loop_tmpbuf add.assoc)
qed

lemma unescape_string_escaped:
  "NUL \<notin> set s \<Longrightarrow>
   unescape_string (escaped ESC_FULL s @ NUL # more)
     = Unescaped (length (escaped ESC_FULL s)) (s @ [NUL])"
  using unescape_loop_escaped [of s more 0 "[]"] by (simp add: unescape_string_def)

section \<open>The characters of escaped text\<close>

lemma sprintf_hex_chars:
  "NUL \<notin> set (sprintf_hex c)" "NL \<notin> set (sprintf_hex c)" "EQUALS \<notin> set (sprintf_hex c)"
  "last (sprintf_hex c) \<noteq> BSL"
proof -
  have hi: "(of_char c :: nat) div 16 < 16" using of_char_less_256 [of c] by presburger
  have lo: "(of_char c :: nat) mod 16 < 16" by simp
  show "NUL \<notin> set (sprintf_hex c)" "NL \<notin> set (sprintf_hex c)" "EQUALS \<notin> set (sprintf_hex c)"
    "last (sprintf_hex c) \<noteq> BSL"
    using hex_digit_props [OF hi] hex_digit_props [OF lo] by (simp_all add: sprintf_hex_def)
qed

lemma tmpbuf_no_NUL: "NUL \<notin> set (tmpbuf mode c)"
proof (cases "c = NUL")
  case True
  then show ?thesis
    by (simp add: tmpbuf_def sprintf_hex_chars iscntrl_def isascii_def)
next
  case False
  then show ?thesis
    by (simp add: tmpbuf_def sprintf_hex_chars)
qed

lemma tmpbuf_no_NL: "NL \<notin> set (tmpbuf ESC_FULL c)"
proof (cases "c = NL")
  case True
  then show ?thesis
    by (simp add: tmpbuf_def sprintf_hex_chars iscntrl_def isascii_def)
next
  case False
  then show ?thesis
    by (simp add: tmpbuf_def sprintf_hex_chars)
qed

lemma tmpbuf_no_EQUALS: "c \<noteq> EQUALS \<Longrightarrow> EQUALS \<notin> set (tmpbuf mode c)"
  by (simp add: tmpbuf_def sprintf_hex_chars)

lemma tmpbuf_last: "c \<noteq> BSL \<Longrightarrow> last (tmpbuf ESC_FULL c) \<noteq> BSL"
  by (simp add: tmpbuf_def sprintf_hex_chars)

lemma escaped_no_NUL: "NUL \<notin> set (escaped mode s)"
  by (simp add: escaped_def tmpbuf_no_NUL)

lemma escaped_no_NL: "NL \<notin> set (escaped ESC_FULL s)"
  by (simp add: escaped_def tmpbuf_no_NL)

lemma escaped_no_EQUALS:
  assumes "EQUALS \<notin> set s"
  shows "EQUALS \<notin> set (escaped mode s)"
proof
  assume "EQUALS \<in> set (escaped mode s)"
  then obtain c where c: "c \<in> set s" "EQUALS \<in> set (tmpbuf mode c)"
    by (auto simp add: escaped_def)
  with assms have "c \<noteq> EQUALS" by blast
  with c(2) show False using tmpbuf_no_EQUALS by blast
qed

lemma escaped_nonempty: "s \<noteq> [] \<Longrightarrow> escaped mode s \<noteq> []"
  by (cases s) (simp_all add: escaped_def tmpbuf_nonempty)

lemma escaped_append: "escaped mode (s @ t) = escaped mode s @ escaped mode t"
  by (simp add: escaped_def)

lemma escaped_last:
  assumes "s \<noteq> []" and "last s \<noteq> BSL"
  shows "last (escaped ESC_FULL s) \<noteq> BSL"
proof -
  from assms(1) have s: "s = butlast s @ [last s]" by simp
  have "escaped ESC_FULL s = escaped ESC_FULL (butlast s) @ tmpbuf ESC_FULL (last s)"
    by (subst s, subst escaped_append) (simp add: escaped_def)
  with assms(2) show ?thesis
    by (simp add: tmpbuf_nonempty tmpbuf_last)
qed

section \<open>C strings inside a buffer\<close>

lemma strlen_terminated: "NUL \<notin> set s \<Longrightarrow> strlen (s @ NUL # more) = length s"
  by (induction s) (auto simp add: strlen_def)

lemma strchr_found:
  "c \<notin> set s \<Longrightarrow> NUL \<notin> set s \<Longrightarrow> strchr (s @ c # more) c = Some (length s)"
  by (induction s) auto

lemma strchr_none:
  "c \<notin> set s \<Longrightarrow> c \<noteq> NUL \<Longrightarrow> strchr (s @ NUL # more) c = None"
  by (induction s) auto

lemma update_after_prefix: "(xs @ c # ys)[length xs := d] = xs @ d # ys"
  by simp

section \<open>\<^verbatim>\<open>build_file\<close> on the lines that nvram\_dump prints\<close>

lemma make_record_strings:
  assumes "NUL \<notin> set n" and "NUL \<notin> set v"
  shows "make_record (n @ [NUL]) (v @ [NUL])
    = [char_of (length n mod 256)] @ take (length n mod 256) n
      @ [char_of (length v mod 65536 mod 256), char_of (length v mod 65536 div 256 mod 256)]
      @ take (length v mod 65536) v"
proof -
  have le: "length n mod 256 \<le> length n" "length v mod 65536 \<le> length v"
    by simp_all
  from assms have "strlen (n @ [NUL]) = length n" "strlen (v @ [NUL]) = length v"
    by (simp_all add: strlen_terminated)
  with le show ?thesis
    by (simp add: make_record_def Let_def)
qed

lemma build_line_text:
  assumes en: "en \<noteq> []" "EQUALS \<notin> set en" "NL \<notin> set en" "NUL \<notin> set en"
    and ev: "NL \<notin> set ev" "NUL \<notin> set ev"
  shows "build_line (pre @ en @ EQUALS # ev @ NL # rest) (length pre) ln
    = (pre @ en @ NUL # ev @ NUL # rest, length pre + length en + length ev + 2,
       case unescape_string (en @ NUL # ev @ NUL # rest) of
         Invalid \<Rightarrow> Skipped (BadName ln)
       | OutOfBounds \<Rightarrow> Faulted SrcOverrun
       | Unescaped _ r_name \<Rightarrow>
           if length r_name > 256 + 1 then Faulted DestOverrun
           else case unescape_string (ev @ NUL # rest) of
                  Invalid \<Rightarrow> Skipped (BadValue ln)
                | OutOfBounds \<Rightarrow> Faulted SrcOverrun
                | Unescaped _ r_value \<Rightarrow>
                    if length r_value > 65536 + 1 then Faulted DestOverrun
                    else Written (make_record r_name r_value))"
proof -
  let ?line = "en @ EQUALS # ev @ NL # rest"
  have eq: "strchr ?line EQUALS = Some (length en)"
    using en by (simp add: strchr_found)
  have "strchr ((en @ EQUALS # ev) @ NL # rest) NL = Some (length (en @ EQUALS # ev))"
    using en ev by (intro strchr_found) auto
  then have nl: "strchr ?line NL = Some (length en + length ev + 1)"
    by simp
  have "((pre @ en @ EQUALS # ev) @ NL # rest)[length (pre @ en @ EQUALS # ev) := NUL]
          = (pre @ en @ EQUALS # ev) @ NUL # rest"
    by (rule update_after_prefix)
  then have up1: "(pre @ ?line)[length pre + (length en + length ev + 1) := NUL]
          = pre @ en @ EQUALS # ev @ NUL # rest"
    by (simp add: add.assoc)
  have "((pre @ en) @ EQUALS # ev @ NUL # rest)[length (pre @ en) := NUL]
          = (pre @ en) @ NUL # ev @ NUL # rest"
    by (rule update_after_prefix)
  then have up2: "(pre @ en @ EQUALS # ev @ NUL # rest)[length pre + length en := NUL]
          = pre @ en @ NUL # ev @ NUL # rest"
    by simp
  have d1: "drop (length pre) (pre @ en @ NUL # ev @ NUL # rest) = en @ NUL # ev @ NUL # rest"
    by simp
  have "drop (length (pre @ en @ [NUL])) ((pre @ en @ [NUL]) @ ev @ NUL # rest) = ev @ NUL # rest"
    by (rule append_eq_conv_conj [THEN iffD1, THEN conjunct2, symmetric]) (rule refl)
  then have d2: "drop (length pre + length en + 1) (pre @ en @ NUL # ev @ NUL # rest) = ev @ NUL # rest"
    by simp
  have sl: "strlen (en @ NUL # ev @ NUL # rest) \<noteq> 0"
    using en by (simp add: strlen_terminated)
  show ?thesis
    using eq nl up1 up2 d1 d2 sl
    by (simp add: build_line_def Let_def add.assoc cong: unescaped.case_cong if_cong)
qed

lemma build_line_escaped:
  assumes "representable r" and "length (fst r) \<le> 256" and "length (snd r) \<le> 65536"
  shows "build_line (pre @ text_line r @ rest) (length pre) ln
    = (pre @ escaped ESC_FULL (fst r) @ NUL # escaped ESC_FULL (snd r) @ NUL # rest,
       length pre + length (text_line r),
       Written (make_record (fst r @ [NUL]) (snd r @ [NUL])))"
proof -
  let ?en = "escaped ESC_FULL (fst r)" and ?ev = "escaped ESC_FULL (snd r)"
  from assms(1) have n: "fst r \<noteq> []" "NUL \<notin> set (fst r)" "EQUALS \<notin> set (fst r)"
    and v: "NUL \<notin> set (snd r)"
    by (simp_all add: representable_def)
  have en: "?en \<noteq> []" "EQUALS \<notin> set ?en" "NL \<notin> set ?en" "NUL \<notin> set ?en"
    using n by (simp_all add: escaped_nonempty escaped_no_EQUALS escaped_no_NL escaped_no_NUL)
  have ev: "NL \<notin> set ?ev" "NUL \<notin> set ?ev"
    by (simp_all add: escaped_no_NL escaped_no_NUL)
  have un: "unescape_string (?en @ NUL # ?ev @ NUL # rest)
              = Unescaped (length ?en) (fst r @ [NUL])"
    using n(2) by (rule unescape_string_escaped)
  have uv: "unescape_string (?ev @ NUL # rest) = Unescaped (length ?ev) (snd r @ [NUL])"
    using v by (rule unescape_string_escaped)
  have "pre @ text_line r @ rest = pre @ ?en @ EQUALS # ?ev @ NL # rest"
    by (simp add: text_line_def)
  then show ?thesis
    using build_line_text [OF en ev, of pre rest ln] un uv assms(2,3)
    by (simp add: text_line_def)
qed

lemma subst_loop_segment:
  assumes "NL \<notin> set xs" and "c = NL \<Longrightarrow> xs \<noteq> [] \<Longrightarrow> last xs \<noteq> BSL"
    and "length pre + length xs \<le> maxi"
  shows "subst_loop (pre @ xs @ c # more) (length pre) maxi
           = subst_loop (pre @ xs @ c # more) (length pre + length xs) maxi"
  using assms
proof (induction xs arbitrary: pre)
  case Nil
  then show ?case by simp
next
  case (Cons a xs)
  have here: "(pre @ (a # xs) @ c # more) ! length pre = a"
    by simp
  have "(pre @ (a # xs) @ c # more) ! (length pre + 1) = (xs @ c # more) ! 0"
    by (simp add: nth_append)
  then have nxt: "(pre @ (a # xs) @ c # more) ! (length pre + 1) = (if xs = [] then c else hd xs)"
    by (cases xs) simp_all
  have keep: "\<not> (a = BSL \<and> (if xs = [] then c else hd xs) = NL)"
  proof (cases xs)
    case Nil
    with Cons.prems(2) show ?thesis by auto
  next
    case (Cons b ys)
    with Cons.prems(1) show ?thesis by auto
  qed
  have lt: "length pre < maxi"
    using Cons.prems(3) by simp
  have step: "subst_loop (pre @ (a # xs) @ c # more) (length pre) maxi
                = subst_loop (pre @ (a # xs) @ c # more) (length pre + 1) maxi"
    using lt keep by (subst subst_loop.simps) (simp only: here nxt if_True if_False)
  have "subst_loop ((pre @ [a]) @ xs @ c # more) (length (pre @ [a])) maxi
          = subst_loop ((pre @ [a]) @ xs @ c # more) (length (pre @ [a]) + length xs) maxi"
    using Cons.prems by (intro Cons.IH) auto
  with step show ?case by simp
qed

lemma subst_loop_at_NL:
  assumes "length pre < maxi"
  shows "subst_loop (pre @ NL # more) (length pre) maxi
           = subst_loop (pre @ NL # more) (length pre + 1) maxi"
  using assms by (subst subst_loop.simps) simp

lemma text_line_last:
  assumes "representable r"
  shows "last (escaped ESC_FULL (fst r) @ EQUALS # escaped ESC_FULL (snd r)) \<noteq> BSL"
proof (cases "snd r = []")
  case True
  then show ?thesis by (simp add: escaped_def)
next
  case False
  with assms have "last (snd r) \<noteq> BSL" by (simp add: representable_def)
  with False show ?thesis
    by (simp add: escaped_nonempty escaped_last)
qed

lemma subst_loop_text_line:
  assumes "representable r" and "length pre + length (text_line r) \<le> maxi"
  shows "subst_loop (pre @ text_line r @ more) (length pre) maxi
           = subst_loop (pre @ text_line r @ more) (length pre + length (text_line r)) maxi"
proof -
  let ?xs = "escaped ESC_FULL (fst r) @ EQUALS # escaped ESC_FULL (snd r)"
  have split: "pre @ text_line r @ more = pre @ ?xs @ NL # more"
    by (simp add: text_line_def)
  have len: "length (text_line r) = length ?xs + 1"
    by (simp add: text_line_def)
  have "NL \<notin> set ?xs"
    by (simp add: escaped_no_NL)
  moreover have "last ?xs \<noteq> BSL"
    using assms(1) by (rule text_line_last)
  moreover have "length pre + length ?xs \<le> maxi"
    using assms(2) len by simp
  ultimately have "subst_loop (pre @ ?xs @ NL # more) (length pre) maxi
           = subst_loop (pre @ ?xs @ NL # more) (length pre + length ?xs) maxi"
    by (intro subst_loop_segment) simp_all
  also have "\<dots> = subst_loop ((pre @ ?xs) @ NL # more) (length (pre @ ?xs)) maxi"
    by simp
  also have "\<dots> = subst_loop ((pre @ ?xs) @ NL # more) (length (pre @ ?xs) + 1) maxi"
    using assms(2) len by (intro subst_loop_at_NL) simp
  finally show ?thesis
    unfolding split len by (simp add: add.assoc)
qed

lemma text_line_nonempty: "0 < length (text_line r)"
  by (simp add: text_line_def)

lemma text_line_no_NUL: "NUL \<notin> set (text_line r)"
  by (simp add: text_line_def escaped_no_NUL)

lemma subst_loop_text:
  assumes "\<forall>r\<in>set recs. representable r"
  shows "subst_loop (pre @ concat (map text_line recs) @ more) (length pre)
           (length pre + length (concat (map text_line recs)))
         = pre @ concat (map text_line recs) @ more"
  using assms
proof (induction recs arbitrary: pre)
  case Nil
  show ?case by (subst subst_loop.simps) simp
next
  case (Cons r recs)
  let ?rest = "concat (map text_line recs)"
  let ?maxi = "length pre + length (text_line r) + length ?rest"
  from Cons.prems have r: "representable r" and rs: "\<forall>r\<in>set recs. representable r"
    by simp_all
  have "subst_loop (pre @ text_line r @ ?rest @ more) (length pre) ?maxi
          = subst_loop (pre @ text_line r @ ?rest @ more) (length pre + length (text_line r)) ?maxi"
    using r by (intro subst_loop_text_line) simp_all
  also have "\<dots> = subst_loop ((pre @ text_line r) @ ?rest @ more) (length (pre @ text_line r))
                      (length (pre @ text_line r) + length ?rest)"
    by simp
  also have "\<dots> = (pre @ text_line r) @ ?rest @ more"
    using rs by (rule Cons.IH)
  finally show ?case by (simp add: add.assoc)
qed

lemma build_loop_text:
  assumes "\<forall>r\<in>set recs. representable r \<and> length (fst r) \<le> 256 \<and> length (snd r) \<le> 65536"
  shows "\<exists>b. build_loop (pre @ concat (map text_line recs) @ NUL # zs) (length pre)
               (length pre + length (concat (map text_line recs))) ln rc written diags
             = Built (rc + int (length recs))
                 (written @ map (\<lambda>r. make_record (fst r @ [NUL]) (snd r @ [NUL])) recs) diags b"
  using assms
proof (induction recs arbitrary: pre ln rc written)
  case Nil
  show ?case by (subst build_loop.simps) simp
next
  case (Cons r recs)
  let ?rest = "concat (map text_line recs)"
  let ?pend = "length pre + length (text_line r) + length ?rest"
  let ?done = "pre @ escaped ESC_FULL (fst r) @ NUL # escaped ESC_FULL (snd r) @ [NUL]"
  let ?rec = "make_record (fst r @ [NUL]) (snd r @ [NUL])"
  from Cons.prems have r: "representable r" "length (fst r) \<le> 256" "length (snd r) \<le> 65536"
    and rs: "\<forall>r\<in>set recs. representable r \<and> length (fst r) \<le> 256 \<and> length (snd r) \<le> 65536"
    by simp_all
  have len: "length ?done = length pre + length (text_line r)"
    by (simp add: text_line_def)
  have bl: "build_line (pre @ text_line r @ ?rest @ NUL # zs) (length pre) (ln + 1)
      = (?done @ ?rest @ NUL # zs, length ?done, Written ?rec)"
    using build_line_escaped [OF r, of pre "?rest @ NUL # zs" "ln + 1"] len by simp
  have lt: "length pre < ?pend"
    using text_line_nonempty [of r] by simp
  have "build_loop (pre @ text_line r @ ?rest @ NUL # zs) (length pre) ?pend ln rc written diags
      = build_loop (?done @ ?rest @ NUL # zs) (length ?done) ?pend (ln + 1) (rc + 1)
          (written @ [?rec]) diags"
    using lt by (subst build_loop.simps) (simp only: bl if_True fst_conv snd_conv line_outcome.case)
  moreover have "?pend = length ?done + length ?rest"
    using len by simp
  moreover from Cons.IH [OF rs, of ?done "ln + 1" "rc + 1" "written @ [?rec]"]
  obtain b where "build_loop (?done @ ?rest @ NUL # zs) (length ?done)
               (length ?done + length ?rest) (ln + 1) (rc + 1) (written @ [?rec]) diags
             = Built (rc + 1 + int (length recs))
                 ((written @ [?rec]) @ map (\<lambda>r. make_record (fst r @ [NUL]) (snd r @ [NUL])) recs)
                 diags b"
    by blast
  ultimately show ?case
    by (intro exI [of _ b]) (simp add: add.assoc)
qed

lemma build_from_buffer_text:
  assumes "\<forall>r\<in>set recs. representable r \<and> length (fst r) \<le> 256 \<and> length (snd r) \<le> 65536"
  shows "\<exists>b. build_from_buffer (concat (map text_line recs) @ NUL # zs)
             = Built (int (length recs))
                 (map (\<lambda>r. make_record (fst r @ [NUL]) (snd r @ [NUL])) recs) [] b"
proof -
  let ?text = "concat (map text_line recs)"
  have "NUL \<notin> set ?text"
    by (simp add: text_line_no_NUL)
  then have sl: "strlen (?text @ NUL # zs) = length ?text"
    by (rule strlen_terminated)
  have "subst_loop ([] @ ?text @ NUL # zs) (length ([]::string))
          (length ([]::string) + length ?text) = [] @ ?text @ NUL # zs"
    using assms by (intro subst_loop_text) simp
  then have sb: "subst_loop (?text @ NUL # zs) 0 (length ?text) = ?text @ NUL # zs"
    by simp
  from build_loop_text [OF assms, of "[]" zs 0 0 "[]" "[]"]
  obtain b where "build_loop (?text @ NUL # zs) 0 (length ?text) 0 0 [] []
             = Built (int (length recs))
                 (map (\<lambda>r. make_record (fst r @ [NUL]) (snd r @ [NUL])) recs) [] b"
    by auto
  then show ?thesis
    by (intro exI [of _ b]) (simp add: build_from_buffer_def sl sb)
qed

section \<open>nvram\_dump on the images that nvram\_build writes\<close>

lemma escape_loop_fits:
  "int (length dest + length (escaped mode cs)) < maxsz \<Longrightarrow>
   escape_loop mode maxsz cs i (length dest) dest = (i + length cs, dest @ escaped mode cs)"
proof (induction cs arbitrary: i dest)
  case Nil
  then show ?case by (simp add: escaped_def)
next
  case (Cons c cs)
  from Cons.prems have room: "\<not> int (length dest + length (tmpbuf mode c)) \<ge> maxsz"
    by (simp add: escaped_def)
  from Cons.prems
  have "int (length (dest @ tmpbuf mode c) + length (escaped mode cs)) < maxsz"
    by (simp add: escaped_def add.assoc)
  from Cons.IH [OF this, of "i + 1"] room show ?case
    by (simp add: escaped_def)
qed

lemma escape_string_fits:
  assumes "NUL \<notin> set s" and "int (length (escaped mode s)) < maxsz"
  shows "escape_string mode (s @ [NUL]) maxsz = (length s, escaped mode s)"
proof -
  from assms(1) have "strlen (s @ [NUL]) = length s"
    by (rule strlen_terminated)
  moreover from assms(2) have "0 < maxsz" by simp
  moreover have "escape_loop mode maxsz s 0 (length ([]::string)) [] = (0 + length s, [] @ escaped mode s)"
    using assms(2) by (intro escape_loop_fits) simp
  ultimately show ?thesis
    by (simp add: escape_string_def)
qed

lemma print_line_text_line:
  assumes "NUL \<notin> set (fst r)" and "NUL \<notin> set (snd r)"
    and "length (escaped ESC_FULL (fst r)) < 513"
    and "length (escaped ESC_FULL (snd r)) < 65536 * 2 + 1"
  shows "print_line ESC_FULL (fst r @ [NUL]) (snd r @ [NUL]) = text_line r"
proof -
  have "escape_string ESC_FULL (fst r @ [NUL]) 513 = (length (fst r), escaped ESC_FULL (fst r))"
    using assms(1,3) by (intro escape_string_fits) simp_all
  moreover
  have "escape_string ESC_FULL (snd r @ [NUL]) (65536 * 2 + 1)
          = (length (snd r), escaped ESC_FULL (snd r))"
    using assms(2,4) by (intro escape_string_fits) simp_all
  ultimately show ?thesis
    by (simp add: print_line_def text_line_def)
qed

lemma le16_decode:
  assumes "n \<le> 65535"
  shows "(of_char (char_of (n div 256) :: char) :: nat) * 256 + of_char (char_of (n mod 256) :: char) = n"
proof -
  from assms have "n div 256 < 256"
    by (intro less_mult_imp_div_less) simp
  then have hi: "(of_char (char_of (n div 256) :: char) :: nat) = n div 256"
    by (simp only: of_char_of mod_less)
  have lo: "(of_char (char_of (n mod 256) :: char) :: nat) = n mod 256"
    by (simp only: of_char_of mod_mod_trivial)
  show ?thesis
    unfolding hi lo by (rule div_mult_mod_eq)
qed

lemma dump_record_layout:
  assumes "(of_char l :: nat) = length n" and "(of_char hi :: nat) * 256 + of_char lo = vl" and "vl = length v"
  shows "dump_record mode k (l # n @ [lo, hi] @ v @ rest)
    = Inr (print_line mode (n @ [NUL]) (v @ [NUL]), print_diags mode k (n @ [NUL]) (v @ [NUL]), rest)"
proof (cases "v = []")
  case True
  with assms show ?thesis
    by (simp add: dump_record_def Let_def)
next
  case False
  with assms show ?thesis
    by (simp add: dump_record_def Let_def)
qed

lemma dump_record_bytes:
  assumes "length (fst r) \<le> 255" and "length (snd r) \<le> 65535"
  shows "dump_record mode k (record_bytes r @ rest)
    = Inr (print_line mode (fst r @ [NUL]) (snd r @ [NUL]),
           print_diags mode k (fst r @ [NUL]) (snd r @ [NUL]), rest)"
proof -
  from assms(1) have nlen: "(of_char (char_of (length (fst r)) :: char) :: nat) = length (fst r)"
    by (simp only: of_char_of) simp
  have vlen: "(of_char (char_of (length (snd r) div 256) :: char) :: nat) * 256
                + of_char (char_of (length (snd r) mod 256) :: char) = length (snd r)"
    using assms(2) by (rule le16_decode)
  have "record_bytes r @ rest
          = char_of (length (fst r)) # fst r
            @ [char_of (length (snd r) mod 256), char_of (length (snd r) div 256)] @ snd r @ rest"
    by (simp add: record_bytes_def)
  then show ?thesis
    using dump_record_layout [OF nlen vlen refl, of mode k rest] by (simp only:)
qed

lemma dump_loop_records:
  assumes "\<forall>r\<in>set recs. length (fst r) \<le> 255 \<and> length (snd r) \<le> 65535"
    and "k + length recs \<le> cnt"
  shows "\<exists>ds. dump_loop mode (concat (map record_bytes recs) @ tail) k cnt out err
           = dump_loop mode tail (k + length recs) cnt
               (out @ concat (map (\<lambda>r. print_line mode (fst r @ [NUL]) (snd r @ [NUL])) recs))
               (err @ ds)"
  using assms
proof (induction recs arbitrary: k out err)
  case Nil
  show ?case by (intro exI [of _ "[]"]) simp
next
  case (Cons r recs)
  let ?line = "print_line mode (fst r @ [NUL]) (snd r @ [NUL])"
  let ?ds = "print_diags mode (k + 1) (fst r @ [NUL]) (snd r @ [NUL])"
  from Cons.prems have r: "length (fst r) \<le> 255" "length (snd r) \<le> 65535"
    and rs: "\<forall>r\<in>set recs. length (fst r) \<le> 255 \<and> length (snd r) \<le> 65535"
    and k: "k < cnt" "(k + 1) + length recs \<le> cnt"
    by simp_all
  have rd: "dump_record mode (k + 1) (record_bytes r @ concat (map record_bytes recs) @ tail)
              = Inr (?line, ?ds, concat (map record_bytes recs) @ tail)"
    using r by (rule dump_record_bytes)
  have "dump_loop mode (record_bytes r @ concat (map record_bytes recs) @ tail) k cnt out err
          = dump_loop mode (concat (map record_bytes recs) @ tail) (k + 1) cnt (out @ ?line) (err @ ?ds)"
    using k(1) by (subst dump_loop.simps) (simp only: rd if_True sum.case prod.case)
  moreover from Cons.IH [OF rs k(2), of "out @ ?line" "err @ ?ds"]
  obtain ds where "dump_loop mode (concat (map record_bytes recs) @ tail) (k + 1) cnt (out @ ?line) (err @ ?ds)
           = dump_loop mode tail (k + 1 + length recs) cnt
               ((out @ ?line) @ concat (map (\<lambda>r. print_line mode (fst r @ [NUL]) (snd r @ [NUL])) recs))
               ((err @ ?ds) @ ds)"
    by blast
  ultimately show ?case
    by (intro exI [of _ "?ds @ ds"]) (simp add: add.assoc)
qed

lemma dump_file_image:
  "dump_file mode (''DD-WRT'' @ [lo, hi] @ body)
     = dump_loop mode body 0 ((of_char hi :: nat) * 256 + of_char lo) [] []"
  by (simp add: dump_file_def)



lemma dump_record_short_a: "dump_record mode k [] = Inl (NameLengthError k)"
  by (simp add: dump_record_def)

lemma dump_record_short_b:
  assumes "length nm < (of_char l :: nat)"
  shows "dump_record mode k (l # nm) = Inl (NameError k)"
  using assms by (simp add: dump_record_def Let_def)

lemma dump_record_short_c:
  assumes "(of_char l :: nat) = length nm" and "length vl < 2"
  shows "dump_record mode k (l # nm @ vl) = Inl (ValueLengthError k)"
  using assms by (simp add: dump_record_def Let_def)

lemma dump_record_short_d:
  assumes "(of_char l :: nat) = length nm" and "(of_char hi :: nat) * 256 + of_char lo = vlen"
    and "length vs < vlen"
  shows "dump_record mode k (l # nm @ [lo, hi] @ vs) = Inl (ValueError k)"
  using assms by (simp add: dump_record_def Let_def)


lemma dump_loop_stops:
  assumes "k < cnt" and "dump_record mode (k + 1) f = Inl d"
  shows "dump_loop mode f k cnt out err = (1, out, err @ [d])"
  using assms(1) by (subst dump_loop.simps) (simp only: assms(2) if_True sum.case)

lemma dump_loop_done: "dump_loop mode f cnt cnt out err = (0, out, err)"
  by (subst dump_loop.simps) simp

lemma dump_record_Inr:
  assumes "dump_record mode k f = Inr (line, ds, f')"
  shows "\<exists>r. f = record_bytes r @ f' \<and> length (fst r) \<le> 255 \<and> length (snd r) \<le> 65535
           \<and> line = print_line mode (fst r @ [NUL]) (snd r @ [NUL])"
proof -
  define name_len where "name_len = (of_char (f ! 0) :: nat)"
  define f1 where "f1 = drop 1 f"
  define f2 where "f2 = drop name_len f1"
  define value_len where "value_len = (of_char (f2 ! 1) :: nat) * 256 + of_char (f2 ! 0)"
  define f3 where "f3 = drop 2 f2"
  have unfolded: "dump_record mode k f =
     (if length (take 1 f) \<noteq> 1 then Inl (NameLengthError k)
      else if length (take name_len f1) \<noteq> name_len then Inl (NameError k)
      else if length (take 2 f2) \<noteq> 2 then Inl (ValueLengthError k)
      else if value_len > 0 \<and> length (take value_len f3) \<noteq> value_len then Inl (ValueError k)
      else Inr (print_line mode (take name_len f1 @ [NUL])
                  (if value_len > 0 then take value_len f3 @ [NUL] else [NUL]),
                print_diags mode k (take name_len f1 @ [NUL])
                  (if value_len > 0 then take value_len f3 @ [NUL] else [NUL]),
                if value_len > 0 then drop value_len f3 else f3))"
    unfolding name_len_def f1_def f2_def f3_def value_len_def
    by (simp only: dump_record_def Let_def)
  from assms unfolded have a: "length (take 1 f) = 1"
    by (simp split: if_splits)
  from assms unfolded have b: "length (take name_len f1) = name_len"
    by (simp split: if_splits)
  from assms unfolded have c: "length (take 2 f2) = 2"
    by (simp split: if_splits)
  let ?n = "take name_len f1" and ?v = "take value_len f3"
  have d: "length ?v = value_len"
  proof (cases "value_len > 0")
    case True
    with assms unfolded show ?thesis by (simp split: if_splits)
  next
    case False
    then show ?thesis by simp
  qed
  have res: "line = print_line mode (?n @ [NUL]) (?v @ [NUL])" "f' = drop value_len f3"
  proof -
    show "line = print_line mode (?n @ [NUL]) (?v @ [NUL])"
    proof (cases "value_len > 0")
      case True
      with assms unfolded show ?thesis by (simp split: if_splits)
    next
      case False
      with assms unfolded show ?thesis by (simp split: if_splits)
    qed
    show "f' = drop value_len f3"
    proof (cases "value_len > 0")
      case True
      with assms unfolded show ?thesis by (simp split: if_splits)
    next
      case False
      with assms unfolded show ?thesis by (simp split: if_splits)
    qed
  qed
  from a have f: "f = (f ! 0) # f1"
    unfolding f1_def by (cases f) simp_all
  from c have f2: "f2 = [f2 ! 0, f2 ! 1] @ f3"
    unfolding f3_def by (cases f2; cases "tl f2") simp_all
  have nl: "name_len \<le> 255"
    unfolding name_len_def using of_char_less_256 [of "f ! 0"] by linarith
  have "(of_char (f2 ! 1) :: nat) * 256 \<le> 255 * 256"
    using of_char_less_256 [of "f2 ! 1"] by linarith
  then have vl: "value_len \<le> 65535"
    unfolding value_len_def using of_char_less_256 [of "f2 ! 0"] by linarith
  have hi: "value_len div 256 = of_char (f2 ! 1)"
    unfolding value_len_def using of_char_less_256 [of "f2 ! 0"] by simp
  have lo: "value_len mod 256 = of_char (f2 ! 0)"
    unfolding value_len_def using of_char_less_256 [of "f2 ! 0"] by simp
  have "record_bytes (?n, ?v) @ f'
          = char_of name_len # ?n @ [char_of (value_len mod 256), char_of (value_len div 256)] @ ?v @ f'"
    using b d by (simp add: record_bytes_def)
  also have "\<dots> = (f ! 0) # ?n @ [f2 ! 0, f2 ! 1] @ ?v @ drop value_len f3"
    unfolding hi lo res(2) by (simp add: name_len_def)
  also have "\<dots> = (f ! 0) # ?n @ [f2 ! 0, f2 ! 1] @ f3"
    by simp
  also have "\<dots> = (f ! 0) # ?n @ f2"
    using f2 by simp
  also have "\<dots> = (f ! 0) # f1"
    unfolding f2_def by simp
  finally have "f = record_bytes (?n, ?v) @ f'"
    using f by simp
  with b d nl vl res(1) show ?thesis
    by (intro exI [of _ "(?n, ?v)"]) simp
qed

lemma dump_loop_success:
  assumes "dump_loop mode f k cnt out err = (0, out', err')"
  shows "\<exists>recs rest. f = concat (map record_bytes recs) @ rest \<and> length recs = cnt - k
           \<and> (\<forall>r\<in>set recs. length (fst r) \<le> 255 \<and> length (snd r) \<le> 65535)
           \<and> out' = out @ concat (map (\<lambda>r. print_line mode (fst r @ [NUL]) (snd r @ [NUL])) recs)"
  using assms
proof (induction mode f k cnt out err rule: dump_loop.induct)
  case (1 mode f k cnt out err)
  show ?case
  proof (cases "k < cnt")
    case False
    with "1.prems" have "out' = out"
      by (subst (asm) dump_loop.simps) simp
    with False show ?thesis
      by (intro exI [of _ "[]"] exI [of _ f]) simp
  next
    case True
    show ?thesis
    proof (cases "dump_record mode (k + 1) f")
      case (Inl d)
      with True "1.prems" show ?thesis
        by (subst (asm) dump_loop.simps) simp
    next
      case (Inr x)
      obtain line ds f' where x: "x = (line, ds, f')"
        by (cases x) auto
      from True Inr x "1.prems"
      have run: "dump_loop mode f' (k + 1) cnt (out @ line) (err @ ds) = (0, out', err')"
        by (subst (asm) dump_loop.simps) simp
      from "1.IH" [OF True Inr x [symmetric] refl run]
      obtain recs rest where rec: "f' = concat (map record_bytes recs) @ rest"
        "length recs = cnt - (k + 1)"
        "\<forall>r\<in>set recs. length (fst r) \<le> 255 \<and> length (snd r) \<le> 65535"
        "out' = (out @ line)
           @ concat (map (\<lambda>r. print_line mode (fst r @ [NUL]) (snd r @ [NUL])) recs)"
        by blast
      from Inr x dump_record_Inr [of mode "k + 1" f line ds f']
      obtain r where r: "f = record_bytes r @ f'" "length (fst r) \<le> 255"
        "length (snd r) \<le> 65535" "line = print_line mode (fst r @ [NUL]) (snd r @ [NUL])"
        by auto
      from True rec r show ?thesis
        by (intro exI [of _ "r # recs"] exI [of _ rest]) simp
    qed
  qed
qed

section \<open>\<^verbatim>\<open>dump_file\<close>: header, record count and short reads\<close>

lemma dump_file_counted:
  assumes "\<forall>r\<in>set recs. length (fst r) \<le> 255 \<and> length (snd r) \<le> 65535"
    and "(of_char hi :: nat) * 256 + of_char lo \<le> length recs"
  shows "\<exists>err. dump_file mode (''DD-WRT'' @ [lo, hi] @ concat (map record_bytes recs) @ extra)
     = (0, concat (map (\<lambda>r. print_line mode (fst r @ [NUL]) (snd r @ [NUL]))
                    (take ((of_char hi :: nat) * 256 + of_char lo) recs)), err)"
proof -
  let ?cnt = "(of_char hi :: nat) * 256 + of_char lo"
  let ?first = "take ?cnt recs" and ?others = "drop ?cnt recs"
  have body: "concat (map record_bytes recs) @ extra
      = concat (map record_bytes ?first) @ (concat (map record_bytes ?others) @ extra)"
    by (metis append.assoc append_take_drop_id concat_append map_append)
  have bounds: "\<forall>r\<in>set ?first. length (fst r) \<le> 255 \<and> length (snd r) \<le> 65535"
    using assms(1) by (meson in_set_takeD)
  have len: "0 + length ?first \<le> ?cnt" "0 + length ?first = ?cnt"
    using assms(2) by simp_all
  from dump_loop_records [OF bounds len(1), of mode "concat (map record_bytes ?others) @ extra" "[]" "[]"]
  obtain ds where "dump_loop mode (concat (map record_bytes ?first)
        @ (concat (map record_bytes ?others) @ extra)) 0 ?cnt [] []
      = dump_loop mode (concat (map record_bytes ?others) @ extra) (0 + length ?first) ?cnt
          ([] @ concat (map (\<lambda>r. print_line mode (fst r @ [NUL]) (snd r @ [NUL])) ?first))
          ([] @ ds)"
    by blast
  then have "dump_loop mode (concat (map record_bytes recs) @ extra) 0 ?cnt [] []
      = (0, concat (map (\<lambda>r. print_line mode (fst r @ [NUL]) (snd r @ [NUL])) ?first), ds)"
    unfolding body len(2) by (simp only: dump_loop_done append_Nil)
  then show ?thesis
    by (simp only: dump_file_image) blast
qed

lemma dump_file_short:
  assumes "\<forall>r\<in>set recs. length (fst r) \<le> 255 \<and> length (snd r) \<le> 65535"
    and "length recs < (of_char hi :: nat) * 256 + of_char lo"
    and "dump_record mode (length recs + 1) tail = Inl d"
  shows "\<exists>err. dump_file mode (''DD-WRT'' @ [lo, hi] @ concat (map record_bytes recs) @ tail)
     = (1, concat (map (\<lambda>r. print_line mode (fst r @ [NUL]) (snd r @ [NUL])) recs), err)"
proof -
  let ?cnt = "(of_char hi :: nat) * 256 + of_char lo"
  from assms(2) have le: "0 + length recs \<le> ?cnt" by simp
  from dump_loop_records [OF assms(1) le, of mode tail "[]" "[]"]
  obtain ds where "dump_loop mode (concat (map record_bytes recs) @ tail) 0 ?cnt [] []
      = dump_loop mode tail (0 + length recs) ?cnt
          ([] @ concat (map (\<lambda>r. print_line mode (fst r @ [NUL]) (snd r @ [NUL])) recs)) ([] @ ds)"
    by blast
  also have "\<dots> = (1, [] @ concat (map (\<lambda>r. print_line mode (fst r @ [NUL]) (snd r @ [NUL])) recs),
                    ([] @ ds) @ [d])"
    using assms(2,3) by (intro dump_loop_stops) simp_all
  finally show ?thesis
    by (simp only: dump_file_image append_Nil) blast
qed

lemma dump_file_complete:
  assumes "fst (dump_file mode file) = 0"
  shows "\<exists>lo hi recs rest. file = ''DD-WRT'' @ [lo, hi] @ concat (map record_bytes recs) @ rest
           \<and> length recs = (of_char hi :: nat) * 256 + of_char lo
           \<and> (\<forall>r\<in>set recs. length (fst r) \<le> 255 \<and> length (snd r) \<le> 65535)
           \<and> fst (snd (dump_file mode file))
               = concat (map (\<lambda>r. print_line mode (fst r @ [NUL]) (snd r @ [NUL])) recs)"
proof -
  let ?cnt = "(of_char (file ! 7) :: nat) * 256 + of_char (file ! 6)"
  from assms have hd: "length (take 8 file) = 8" "take 6 file = ''DD-WRT''"
    by (auto simp add: dump_file_def split: if_splits)
  then have run: "dump_file mode file = dump_loop mode (drop 8 file) 0 ?cnt [] []"
    by (simp add: dump_file_def)
  obtain out err where res: "dump_loop mode (drop 8 file) 0 ?cnt [] [] = (0, out, err)"
    using assms run by (cases "dump_loop mode (drop 8 file) 0 ?cnt [] []") simp
  from dump_loop_success [OF res]
  obtain recs rest where recs: "drop 8 file = concat (map record_bytes recs) @ rest"
    "length recs = ?cnt - 0"
    "\<forall>r\<in>set recs. length (fst r) \<le> 255 \<and> length (snd r) \<le> 65535"
    "out = [] @ concat (map (\<lambda>r. print_line mode (fst r @ [NUL]) (snd r @ [NUL])) recs)"
    by blast
  from hd(1) have "8 \<le> length file" by simp
  then have "take 8 file = take 6 file @ [file ! 6, file ! 7]"
    by (simp add: list_eq_iff_nth_eq nth_append less_Suc_eq numeral_eq_Suc)
  then have "file = take 6 file @ [file ! 6, file ! 7] @ drop 8 file"
    by (metis append.assoc append_take_drop_id)
  with hd(2) recs(1) have "file = ''DD-WRT'' @ [file ! 6, file ! 7] @ concat (map record_bytes recs) @ rest"
    by simp
  with recs(2,3,4) run res show ?thesis
    by (intro exI [of _ "file ! 6"] exI [of _ "file ! 7"] exI [of _ recs] exI [of _ rest]) simp
qed

text \<open>
  Claim C6. \<^verbatim>\<open>dump_file\<close> returns 1 with the header message and prints nothing when the
  file is shorter than eight bytes or its first six bytes are not the magic tag. After a good
  header the bytes at offsets 6 and 7 are the record count, low byte first: of the records
  that follow, exactly that many are dumped.
\<close>

theorem dump_file_header:
  "(length file < 8 \<or> take 6 file \<noteq> ''DD-WRT'' \<longrightarrow> dump_file mode file = (1, [], [HeaderError]))
   \<and> ((\<forall>r\<in>set recs. length (fst r) \<le> 255 \<and> length (snd r) \<le> 65535)
        \<and> (of_char hi :: nat) * 256 + of_char lo \<le> length recs
      \<longrightarrow> fst (dump_file mode (''DD-WRT'' @ [lo, hi] @ concat (map record_bytes recs) @ extra)) = 0
        \<and> fst (snd (dump_file mode (''DD-WRT'' @ [lo, hi] @ concat (map record_bytes recs) @ extra)))
            = concat (map (\<lambda>r. print_line mode (fst r @ [NUL]) (snd r @ [NUL]))
                       (take ((of_char hi :: nat) * 256 + of_char lo) recs)))"
proof (intro conjI impI)
  assume "length file < 8 \<or> take 6 file \<noteq> ''DD-WRT''"
  then show "dump_file mode file = (1, [], [HeaderError])"
    by (auto simp add: dump_file_def)
next
  assume a: "(\<forall>r\<in>set recs. length (fst r) \<le> 255 \<and> length (snd r) \<le> 65535)
        \<and> (of_char hi :: nat) * 256 + of_char lo \<le> length recs"
  then obtain err where
    "dump_file mode (''DD-WRT'' @ [lo, hi] @ concat (map record_bytes recs) @ extra)
     = (0, concat (map (\<lambda>r. print_line mode (fst r @ [NUL]) (snd r @ [NUL]))
                    (take ((of_char hi :: nat) * 256 + of_char lo) recs)), err)"
    using dump_file_counted [of recs hi lo mode extra] by blast
  then show "fst (dump_file mode (''DD-WRT'' @ [lo, hi] @ concat (map record_bytes recs) @ extra)) = 0"
    and "fst (snd (dump_file mode (''DD-WRT'' @ [lo, hi] @ concat (map record_bytes recs) @ extra)))
            = concat (map (\<lambda>r. print_line mode (fst r @ [NUL]) (snd r @ [NUL]))
                       (take ((of_char hi :: nat) * 256 + of_char lo) recs))"
    by simp_all
qed

lemmas escape_eval =
  print_line_def escape_string_def strlen_def tmpbuf_def isascii_def iscntrl_def

theorem dump_file_header_witness:
  "dump_file ESC_FULL (''DD-WRX'' @ [CHR 0x01, NUL] @ record_bytes (''a'', ''x''))
     = (1, [], [HeaderError])
   \<and> fst (dump_file ESC_FULL (''DD-WRT'' @ [CHR 0x01, NUL]
           @ concat (map record_bytes [(''a'', ''x''), (''b'', ''y'')]) @ [])) = 0
   \<and> fst (snd (dump_file ESC_FULL (''DD-WRT'' @ [CHR 0x01, NUL]
           @ concat (map record_bytes [(''a'', ''x''), (''b'', ''y'')]) @ [])))
       = ''a=x'' @ [NL]"
proof -
  have bad: "length (''DD-WRX'' @ [CHR 0x01, NUL] @ record_bytes (''a'', ''x'')) < 8
      \<or> take 6 (''DD-WRX'' @ [CHR 0x01, NUL] @ record_bytes (''a'', ''x'')) \<noteq> ''DD-WRT''"
    by simp
  have good: "(\<forall>r\<in>set [(''a'', ''x''), (''b'', ''y'')]. length (fst r) \<le> 255 \<and> length (snd r) \<le> 65535)
        \<and> (of_char NUL :: nat) * 256 + of_char (CHR 0x01) \<le> length [(''a'', ''x''), (''b'', ''y'')]"
    by simp
  have line: "concat (map (\<lambda>r. print_line ESC_FULL (fst r @ [NUL]) (snd r @ [NUL]))
                (take ((of_char NUL :: nat) * 256 + of_char (CHR 0x01)) [(''a'', ''x''), (''b'', ''y'')]))
              = ''a=x'' @ [NL]"
    by (simp add: escape_eval)
  from dump_file_header [of "''DD-WRX'' @ [CHR 0x01, NUL] @ record_bytes (''a'', ''x'')" ESC_FULL
      "[(''a'', ''x''), (''b'', ''y'')]" NUL "CHR 0x01" "[]"] bad good
  show ?thesis
    unfolding line by blast
qed

text \<open>
  Claim C5, as the code has it. Let an image hold, after its header, complete records
  (names of at most 255 and values of at most 65535 bytes) followed by a rest that is cut
  short: the file ends there, or the name is shorter than its length byte says, or fewer
  than two bytes of value length are left, or the value is shorter than its length says;
  and let the count in the header announce more records than the complete ones. Then
  \<^verbatim>\<open>dump_file\<close> returns 1 and has stopped at that record. The output is streamed, not
  held back: the standard output holds the lines of the complete records before the short
  one, printed before the failure, and nothing after them. The status 0 is returned only
  for a file that holds all the records counted in its header, and then the output has the
  line of each of them.
\<close>

theorem dump_file_truncated:
  "((\<forall>r\<in>set recs. length (fst r) \<le> 255 \<and> length (snd r) \<le> 65535)
      \<and> length recs < (of_char hi :: nat) * 256 + of_char lo
      \<and> (tail = []
          \<or> (\<exists>l nm. tail = l # nm \<and> length nm < (of_char l :: nat))
          \<or> (\<exists>l nm vl. tail = l # nm @ vl \<and> (of_char l :: nat) = length nm \<and> length vl < 2)
          \<or> (\<exists>l nm vlo vhi vs. tail = l # nm @ [vlo, vhi] @ vs \<and> (of_char l :: nat) = length nm
                \<and> length vs < (of_char vhi :: nat) * 256 + of_char vlo))
    \<longrightarrow> fst (dump_file mode (''DD-WRT'' @ [lo, hi] @ concat (map record_bytes recs) @ tail)) = 1
      \<and> fst (snd (dump_file mode (''DD-WRT'' @ [lo, hi] @ concat (map record_bytes recs) @ tail)))
          = concat (map (\<lambda>r. print_line mode (fst r @ [NUL]) (snd r @ [NUL])) recs))
   \<and> (fst (dump_file mode file) = 0
    \<longrightarrow> (\<exists>lo hi recs rest. file = ''DD-WRT'' @ [lo, hi] @ concat (map record_bytes recs) @ rest
           \<and> length recs = (of_char hi :: nat) * 256 + of_char lo
           \<and> (\<forall>r\<in>set recs. length (fst r) \<le> 255 \<and> length (snd r) \<le> 65535)
           \<and> fst (snd (dump_file mode file))
               = concat (map (\<lambda>r. print_line mode (fst r @ [NUL]) (snd r @ [NUL])) recs)))"
proof (intro conjI impI)
  assume "fst (dump_file mode file) = 0"
  then show "\<exists>lo hi recs rest. file = ''DD-WRT'' @ [lo, hi] @ concat (map record_bytes recs) @ rest
           \<and> length recs = (of_char hi :: nat) * 256 + of_char lo
           \<and> (\<forall>r\<in>set recs. length (fst r) \<le> 255 \<and> length (snd r) \<le> 65535)
           \<and> fst (snd (dump_file mode file))
               = concat (map (\<lambda>r. print_line mode (fst r @ [NUL]) (snd r @ [NUL])) recs)"
    by (rule dump_file_complete)
next
  assume a: "(\<forall>r\<in>set recs. length (fst r) \<le> 255 \<and> length (snd r) \<le> 65535)
      \<and> length recs < (of_char hi :: nat) * 256 + of_char lo
      \<and> (tail = []
          \<or> (\<exists>l nm. tail = l # nm \<and> length nm < (of_char l :: nat))
          \<or> (\<exists>l nm vl. tail = l # nm @ vl \<and> (of_char l :: nat) = length nm \<and> length vl < 2)
          \<or> (\<exists>l nm vlo vhi vs. tail = l # nm @ [vlo, vhi] @ vs \<and> (of_char l :: nat) = length nm
                \<and> length vs < (of_char vhi :: nat) * 256 + of_char vlo))"
  then have "\<exists>d. dump_record mode (length recs + 1) tail = Inl d"
    using dump_record_short_a dump_record_short_b dump_record_short_c dump_record_short_d
    by (metis (no_types))
  then obtain d where "dump_record mode (length recs + 1) tail = Inl d" ..
  with a obtain err where
    "dump_file mode (''DD-WRT'' @ [lo, hi] @ concat (map record_bytes recs) @ tail)
     = (1, concat (map (\<lambda>r. print_line mode (fst r @ [NUL]) (snd r @ [NUL])) recs), err)"
    using dump_file_short [of recs hi lo mode tail d] by blast
  then show "fst (dump_file mode (''DD-WRT'' @ [lo, hi] @ concat (map record_bytes recs) @ tail)) = 1"
    and "fst (snd (dump_file mode (''DD-WRT'' @ [lo, hi] @ concat (map record_bytes recs) @ tail)))
          = concat (map (\<lambda>r. print_line mode (fst r @ [NUL]) (snd r @ [NUL])) recs)"
    by simp_all
qed

theorem dump_file_truncated_witness:
  "fst (dump_file ESC_FULL (''DD-WRT'' @ [CHR 0x02, NUL] @ concat (map record_bytes [(''a'', ''x'')])
          @ [CHR 0x01] @ ''b'' @ [CHR 0x64, NUL] @ ''only these bytes'')) = 1
   \<and> fst (snd (dump_file ESC_FULL (''DD-WRT'' @ [CHR 0x02, NUL]
          @ concat (map record_bytes [(''a'', ''x'')])
          @ [CHR 0x01] @ ''b'' @ [CHR 0x64, NUL] @ ''only these bytes''))) = ''a=x'' @ [NL]"
proof -
  let ?tail = "[CHR 0x01] @ ''b'' @ [CHR 0x64, NUL] @ ''only these bytes''"
  have short: "?tail = CHR 0x01 # ''b'' @ [CHR 0x64, NUL] @ ''only these bytes''
      \<and> (of_char (CHR 0x01) :: nat) = length ''b''
      \<and> length ''only these bytes'' < (of_char NUL :: nat) * 256 + of_char (CHR 0x64)"
    by simp
  have hyp: "(\<forall>r\<in>set [(''a'', ''x'')]. length (fst r) \<le> 255 \<and> length (snd r) \<le> 65535)
      \<and> length [(''a'', ''x'')] < (of_char NUL :: nat) * 256 + of_char (CHR 0x02)
      \<and> (?tail = []
          \<or> (\<exists>l nm. ?tail = l # nm \<and> length nm < (of_char l :: nat))
          \<or> (\<exists>l nm vl. ?tail = l # nm @ vl \<and> (of_char l :: nat) = length nm \<and> length vl < 2)
          \<or> (\<exists>l nm vlo vhi vs. ?tail = l # nm @ [vlo, vhi] @ vs \<and> (of_char l :: nat) = length nm
                \<and> length vs < (of_char vhi :: nat) * 256 + of_char vlo))"
    using short by (intro conjI disjI2) (simp, simp, blast)
  have line: "concat (map (\<lambda>r. print_line ESC_FULL (fst r @ [NUL]) (snd r @ [NUL])) [(''a'', ''x'')])
              = ''a=x'' @ [NL]"
    by (simp add: escape_eval)
  from dump_file_truncated [of "[(''a'', ''x'')]" NUL "CHR 0x02" ?tail ESC_FULL "[]"] hyp
  show ?thesis
    unfolding line by blast
qed

text \<open>
  Claim C5 as stated fails where it says that records already read are not emitted:
  \<^verbatim>\<open>dump_file\<close> prints and flushes each line inside its loop. For an image that counts
  two records, holds the record \<^verbatim>\<open>a\<close> with the value \<^verbatim>\<open>x\<close> in full and then a record
  whose value is announced with 100 bytes and has 16, the line \<^verbatim>\<open>a=x\<close> is on the standard
  output when the call returns 1.
\<close>

theorem dump_file_prints_before_short_read:
  "dump_file ESC_FULL (''DD-WRT'' @ [CHR 0x02, NUL] @ [CHR 0x01] @ ''a'' @ [CHR 0x01, NUL] @ ''x''
      @ [CHR 0x01] @ ''b'' @ [CHR 0x64, NUL] @ ''only these bytes'')
     = (1, ''a=x'' @ [NL], [ValueError 2])"
  by (simp add: dump_file_def dump_loop.simps dump_record_def print_line_def print_diags_def
        escape_string_def strlen_def tmpbuf_def isascii_def iscntrl_def)

section \<open>The record count written by \<^verbatim>\<open>main\<close>\<close>




lemma write_at_header:
  "write_at (header @ body) 6 [lo, hi] = ''DD-WRT'' @ [lo, hi] @ body"
  by (simp add: write_at_def header_def)










section \<open>From text back to the image\<close>

lemma write_image_bytes:
  "write_image recs
     = ''DD-WRT'' @ [char_of (length recs mod 256), char_of (length recs div 256 mod 256)]
       @ concat (map (\<lambda>r. make_record (fst r @ [NUL]) (snd r @ [NUL])) recs)"
proof -
  have lo: "nat (int (length recs) mod 256) = length recs mod 256"
    by (simp add: nat_mod_distrib)
  have hi: "nat (int (length recs) div 256 mod 256) = length recs div 256 mod 256"
    by (simp add: nat_mod_distrib nat_div_distrib)
  have "(\<lambda>(name, val). make_record (name @ [NUL]) (val @ [NUL]))
          = (\<lambda>r. make_record (fst r @ [NUL]) (snd r @ [NUL]))"
    by (simp add: fun_eq_iff)
  then show ?thesis
    unfolding write_image_def fixup_record_count_def lo hi
    by (simp only: snd_conv write_at_header)
qed

lemma main_build_text:
  assumes "\<forall>r\<in>set recs. representable r \<and> length (fst r) \<le> 256 \<and> length (snd r) \<le> 65536"
    and "length (concat (map text_line recs)) \<le> 128 * 1024"
  shows "main_build [concat (map text_line recs)] = Inr (0, Some (write_image recs))"
proof -
  let ?text = "concat (map text_line recs)"
  let ?records = "map (\<lambda>r. make_record (fst r @ [NUL]) (snd r @ [NUL])) recs"
  from assms(2) have "128 * 1024 + 1 - length ?text = Suc (128 * 1024 - length ?text)"
    by simp
  then have "replicate (128 * 1024 + 1 - length ?text) NUL
               = NUL # replicate (128 * 1024 - length ?text) NUL"
    by (simp only: replicate_Suc)
  with build_file_first [OF assms(2)]
  have "build_file (replicate (128 * 1024 + 1) NUL) ?text
          = build_from_buffer (?text @ NUL # replicate (128 * 1024 - length ?text) NUL)"
    by simp
  with build_from_buffer_text [OF assms(1), of "replicate (128 * 1024 - length ?text) NUL"]
  obtain b where "build_file (replicate (128 * 1024 + 1) NUL) ?text
          = Built (int (length recs)) ?records [] b"
    by auto
  then have "build_files [?text] (replicate (128 * 1024 + 1) NUL) [] 0 0
          = Inr (?records, int (length recs), 0)"
    by (simp only: build_files.simps build_result.case) simp
  then have "main_build [?text]
          = Inr (0, Some (snd (fixup_record_count (header @ concat ?records) (int (length recs)))))"
    by (simp add: main_build_def fixup_record_count_def)
  also have "snd (fixup_record_count (header @ concat ?records) (int (length recs)))
          = write_image recs"
    unfolding write_image_bytes
    by (simp add: fixup_record_count_def write_at_header nat_mod_distrib nat_div_distrib)
  finally show ?thesis .
qed

lemma make_record_bytes:
  assumes "NUL \<notin> set (fst r)" and "NUL \<notin> set (snd r)"
    and "length (fst r) \<le> 255" and "length (snd r) \<le> 65535"
  shows "make_record (fst r @ [NUL]) (snd r @ [NUL]) = record_bytes r"
proof -
  from assms(3) have n: "length (fst r) mod 256 = length (fst r)" by simp
  from assms(4) have v: "length (snd r) mod 65536 = length (snd r)" by simp
  show ?thesis
    unfolding make_record_strings [OF assms(1,2)] n v record_bytes_def
    by simp
qed

lemma write_image_layout:
  assumes "\<forall>r\<in>set recs. NUL \<notin> set (fst r) \<and> NUL \<notin> set (snd r)
              \<and> length (fst r) \<le> 255 \<and> length (snd r) \<le> 65535"
  shows "write_image recs
     = ''DD-WRT'' @ [char_of (length recs mod 256), char_of (length recs div 256)]
       @ concat (map record_bytes recs)"
proof -
  have "map (\<lambda>r. make_record (fst r @ [NUL]) (snd r @ [NUL])) recs = map record_bytes recs"
    using assms by (intro map_cong refl make_record_bytes) auto
  moreover have "(char_of (length recs div 256 mod 256) :: char) = char_of (length recs div 256)"
    by (rule char_of_mod_256)
  ultimately show ?thesis
    by (simp only: write_image_bytes)
qed

lemma dump_file_written:
  assumes "\<forall>r\<in>set recs. representable r \<and> length (fst r) \<le> 255 \<and> length (snd r) \<le> 65535
              \<and> length (escaped ESC_FULL (fst r)) < 513
              \<and> length (escaped ESC_FULL (snd r)) < 65536 * 2 + 1"
    and "length recs \<le> 65535"
  shows "\<exists>err. dump_file ESC_FULL (write_image recs) = (0, concat (map text_line recs), err)"
proof -
  let ?lo = "char_of (length recs mod 256) :: char" and ?hi = "char_of (length recs div 256) :: char"
  have nul: "\<forall>r\<in>set recs. NUL \<notin> set (fst r) \<and> NUL \<notin> set (snd r)
              \<and> length (fst r) \<le> 255 \<and> length (snd r) \<le> 65535"
    using assms(1) by (simp add: representable_def)
  have img: "write_image recs = ''DD-WRT'' @ [?lo, ?hi] @ concat (map record_bytes recs) @ []"
    using write_image_layout [OF nul] by simp
  have cnt: "(of_char ?hi :: nat) * 256 + of_char ?lo = length recs"
    using assms(2) by (rule le16_decode)
  have bounds: "\<forall>r\<in>set recs. length (fst r) \<le> 255 \<and> length (snd r) \<le> 65535"
    using assms(1) by simp
  have count: "(of_char ?hi :: nat) * 256 + of_char ?lo \<le> length recs"
    unfolding cnt by simp
  have lines: "map (\<lambda>r. print_line ESC_FULL (fst r @ [NUL]) (snd r @ [NUL])) recs = map text_line recs"
    using assms(1) nul by (intro map_cong refl print_line_text_line) auto
  from dump_file_counted [OF bounds count, of ESC_FULL "[]"]
  obtain err where "dump_file ESC_FULL (''DD-WRT'' @ [?lo, ?hi] @ concat (map record_bytes recs) @ [])
     = (0, concat (map (\<lambda>r. print_line ESC_FULL (fst r @ [NUL]) (snd r @ [NUL]))
                    (take ((of_char ?hi :: nat) * 256 + of_char ?lo) recs)), err)"
    by blast
  then have "dump_file ESC_FULL (write_image recs) = (0, concat (map text_line recs), err)"
    unfolding cnt img [symmetric] by (simp only: take_all [OF order_refl] lines)
  then show ?thesis ..
qed

text \<open>
  Claim C1, as the code has it. Take at most 65535 records whose names and values are
  \<^const>\<open>representable\<close> (no NUL, a name that is not empty and has no \<^verbatim>\<open>=\<close>, a value
  that does not end in a backslash), with names of at most 255 and values of at most 65535
  bytes, whose escaped forms fit the buffers of nvram\_dump (513 and 131073 bytes) and whose
  text fits the input buffer of nvram\_build (128K). The image written for them is the
  magic tag, the count and the records byte for byte in their order; nvram\_dump in full
  mode succeeds on it and prints one line per record in that order; and nvram\_build on
  that text gives back the same image.
\<close>

theorem full_mode_round_trip:
  assumes "\<forall>r\<in>set recs. representable r \<and> length (fst r) \<le> 255 \<and> length (snd r) \<le> 65535
              \<and> length (escaped ESC_FULL (fst r)) < 513
              \<and> length (escaped ESC_FULL (snd r)) < 65536 * 2 + 1"
    and "length recs \<le> 65535"
    and "length (concat (map text_line recs)) \<le> 128 * 1024"
  shows "write_image recs
           = ''DD-WRT'' @ [char_of (length recs mod 256), char_of (length recs div 256)]
             @ concat (map record_bytes recs)
     \<and> fst (dump_file ESC_FULL (write_image recs)) = 0
     \<and> fst (snd (dump_file ESC_FULL (write_image recs))) = concat (map text_line recs)
     \<and> main_build [fst (snd (dump_file ESC_FULL (write_image recs)))]
           = Inr (0, Some (write_image recs))"
proof -
  have nul: "\<forall>r\<in>set recs. NUL \<notin> set (fst r) \<and> NUL \<notin> set (snd r)
              \<and> length (fst r) \<le> 255 \<and> length (snd r) \<le> 65535"
    using assms(1) by (simp add: representable_def)
  have limits: "\<forall>r\<in>set recs. representable r \<and> length (fst r) \<le> 256 \<and> length (snd r) \<le> 65536"
    using assms(1) by auto
  from dump_file_written [OF assms(1,2)]
  obtain err where dump: "dump_file ESC_FULL (write_image recs) = (0, concat (map text_line recs), err)"
    by blast
  from main_build_text [OF limits assms(3)] dump write_image_layout [OF nul]
  show ?thesis by simp
qed

lemmas text_eval =
  text_line_def escaped_def representable_def tmpbuf_def sprintf_hex_def hex_digit_def
  isascii_def iscntrl_def

theorem full_mode_round_trip_witness:
  "write_image [(''wl_ssid'', ''MyNet'' @ [CHR 0x01])]
     = ''DD-WRT'' @ [CHR 0x01, NUL] @ [CHR 0x07] @ ''wl_ssid'' @ [CHR 0x06, NUL] @ ''MyNet'' @ [CHR 0x01]
   \<and> fst (dump_file ESC_FULL (write_image [(''wl_ssid'', ''MyNet'' @ [CHR 0x01])])) = 0
   \<and> fst (snd (dump_file ESC_FULL (write_image [(''wl_ssid'', ''MyNet'' @ [CHR 0x01])])))
       = ''wl_ssid=MyNet'' @ [BSL] @ ''x01'' @ [NL]
   \<and> main_build [fst (snd (dump_file ESC_FULL (write_image [(''wl_ssid'', ''MyNet'' @ [CHR 0x01])])))]
       = Inr (0, Some (write_image [(''wl_ssid'', ''MyNet'' @ [CHR 0x01])]))"
proof -
  let ?recs = "[(''wl_ssid'', ''MyNet'' @ [CHR 0x01])]"
  have good: "\<forall>r\<in>set ?recs. representable r \<and> length (fst r) \<le> 255 \<and> length (snd r) \<le> 65535
              \<and> length (escaped ESC_FULL (fst r)) < 513
              \<and> length (escaped ESC_FULL (snd r)) < 65536 * 2 + 1"
    by (simp add: text_eval)
  have few: "length ?recs \<le> 65535" by simp
  have small: "length (concat (map text_line ?recs)) \<le> 128 * 1024"
    by (simp add: text_eval)
  have rendered: "concat (map text_line ?recs) = ''wl_ssid=MyNet'' @ [BSL] @ ''x01'' @ [NL]"
    by (simp add: text_eval)
  have image: "''DD-WRT'' @ [char_of (length ?recs mod 256), char_of (length ?recs div 256)]
             @ concat (map record_bytes ?recs)
     = ''DD-WRT'' @ [CHR 0x01, NUL] @ [CHR 0x07] @ ''wl_ssid'' @ [CHR 0x06, NUL] @ ''MyNet'' @ [CHR 0x01]"
    by (simp add: record_bytes_def char_of_eq_iff take_bit_eq_mod)
  from full_mode_round_trip [OF good few small] show ?thesis
    unfolding rendered image .
qed

text \<open>
  Claim C1 as stated fails on a value with an embedded NUL: both tools handle names and
  values as C strings. For the record \<^verbatim>\<open>a\<close> with the three-byte value x, NUL, y the dump
  prints \<^verbatim>\<open>a=x\<close>, and the image rebuilt from that line holds the one-byte value x.
\<close>

theorem embedded_NUL_cuts_value:
  "dump_file ESC_FULL (''DD-WRT'' @ [CHR 0x01, NUL] @ record_bytes (''a'', [CHR ''x'', NUL, CHR ''y'']))
     = (0, ''a=x'' @ [NL], [])
   \<and> main_build [''a=x'' @ [NL]]
     = Inr (0, Some (''DD-WRT'' @ [CHR 0x01, NUL] @ record_bytes (''a'', ''x'')))
   \<and> record_bytes (''a'', ''x'') \<noteq> record_bytes (''a'', [CHR ''x'', NUL, CHR ''y''])"
proof -
  have dump: "dump_file ESC_FULL
      (''DD-WRT'' @ [CHR 0x01, NUL] @ record_bytes (''a'', [CHR ''x'', NUL, CHR ''y'']))
     = (0, ''a=x'' @ [NL], [])"
    by (simp add: dump_file_def dump_loop.simps dump_record_def record_bytes_def print_line_def
          print_diags_def escape_string_def strlen_def tmpbuf_def isascii_def iscntrl_def)
  have good: "\<forall>r\<in>set [(''a'', ''x'')]. representable r \<and> length (fst r) \<le> 256 \<and> length (snd r) \<le> 65536"
    by (simp add: text_eval)
  have small: "length (concat (map text_line [(''a'', ''x'')])) \<le> 128 * 1024"
    by (simp add: text_eval)
  have rendered: "concat (map text_line [(''a'', ''x'')]) = ''a=x'' @ [NL]"
    by (simp add: text_eval)
  have image: "write_image [(''a'', ''x'')] = ''DD-WRT'' @ [CHR 0x01, NUL] @ record_bytes (''a'', ''x'')"
    by (simp add: write_image_bytes make_record_def strlen_def record_bytes_def
          char_of_eq_iff take_bit_eq_mod)
  have build: "main_build [''a=x'' @ [NL]]
     = Inr (0, Some (''DD-WRT'' @ [CHR 0x01, NUL] @ record_bytes (''a'', ''x'')))"
    using main_build_text [OF good small] unfolding rendered image .
  have differ: "record_bytes (''a'', ''x'') \<noteq> record_bytes (''a'', [CHR ''x'', NUL, CHR ''y''])"
    by (simp add: record_bytes_def)
  from dump build differ show ?thesis by blast
qed

section \<open>Names longer than the length byte can say\<close>

lemma make_record_masked:
  assumes "NUL \<notin> set (fst r)" and "NUL \<notin> set (snd r)" and "length (snd r) \<le> 65535"
  shows "make_record (fst r @ [NUL]) (snd r @ [NUL])
    = [char_of (length (fst r) mod 256)] @ take (length (fst r) mod 256) (fst r)
      @ [char_of (length (snd r) mod 256), char_of (length (snd r) div 256)] @ snd r"
proof -
  from assms(3) have v: "length (snd r) mod 65536 = length (snd r)" by simp
  have hi: "(char_of (length (snd r) div 256 mod 256) :: char) = char_of (length (snd r) div 256)"
    by (rule char_of_mod_256)
  show ?thesis
    unfolding make_record_strings [OF assms(1,2)] v hi by simp
qed

text \<open>
  Claim C3, as the code has it. Let the one input file of nvram\_build be at most 128K
  bytes long and consist of the lines that nvram\_dump prints in full mode (escaped name,
  \<^verbatim>\<open>=\<close>, escaped value, newline) for records that are \<^const>\<open>representable\<close> (no NUL in
  name or value, a name that is not empty and has no \<^verbatim>\<open>=\<close>, a value that does not end in
  a backslash), with names of at most 256 bytes (what the buffer \<^verbatim>\<open>r_name\<close> holds) and
  values of at most 65535 bytes. Then no line is refused for the length of its name:
  \<^verbatim>\<open>main\<close> ends with status 0 and writes a record for every line, whose name-length byte is
  the length of the name modulo 256, followed by that many leading bytes of the name, then
  the length of the value in two bytes and the value. So a name of up to 255 bytes is
  written whole, and a name of 256 bytes as an empty name.
\<close>

theorem name_length_masked:
  assumes "\<forall>r\<in>set recs. representable r \<and> length (fst r) \<le> 256 \<and> length (snd r) \<le> 65535"
    and "length (concat (map text_line recs)) \<le> 128 * 1024"
  shows "main_build [concat (map text_line recs)]
    = Inr (0, Some (''DD-WRT'' @ [char_of (length recs mod 256), char_of (length recs div 256 mod 256)]
        @ concat (map (\<lambda>r. [char_of (length (fst r) mod 256)] @ take (length (fst r) mod 256) (fst r)
                    @ [char_of (length (snd r) mod 256), char_of (length (snd r) div 256)] @ snd r)
                  recs)))"
proof -
  have limits: "\<forall>r\<in>set recs. representable r \<and> length (fst r) \<le> 256 \<and> length (snd r) \<le> 65536"
    using assms(1) by auto
  have "map (\<lambda>r. make_record (fst r @ [NUL]) (snd r @ [NUL])) recs
      = map (\<lambda>r. [char_of (length (fst r) mod 256)] @ take (length (fst r) mod 256) (fst r)
                    @ [char_of (length (snd r) mod 256), char_of (length (snd r) div 256)] @ snd r)
            recs"
    using assms(1) by (intro map_cong refl make_record_masked) (auto simp add: representable_def)
  with main_build_text [OF limits assms(2)] show ?thesis
    by (simp only: write_image_bytes)
qed

theorem name_length_masked_witness:
  "main_build [''wl_ssid=MyNet'' @ [BSL] @ ''x01'' @ [NL]]
    = Inr (0, Some (''DD-WRT'' @ [CHR 0x01, NUL] @ [CHR 0x07] @ ''wl_ssid''
                     @ [CHR 0x06, NUL] @ ''MyNet'' @ [CHR 0x01]))"
proof -
  let ?recs = "[(''wl_ssid'', ''MyNet'' @ [CHR 0x01])]"
  have good: "\<forall>r\<in>set ?recs. representable r \<and> length (fst r) \<le> 256 \<and> length (snd r) \<le> 65535"
    by (simp add: text_eval)
  have small: "length (concat (map text_line ?recs)) \<le> 128 * 1024"
    by (simp add: text_eval)
  have rendered: "concat (map text_line ?recs) = ''wl_ssid=MyNet'' @ [BSL] @ ''x01'' @ [NL]"
    by (simp add: text_eval)
  have image: "''DD-WRT'' @ [char_of (length ?recs mod 256), char_of (length ?recs div 256 mod 256)]
        @ concat (map (\<lambda>r. [char_of (length (fst r) mod 256)] @ take (length (fst r) mod 256) (fst r)
                    @ [char_of (length (snd r) mod 256), char_of (length (snd r) div 256)] @ snd r)
                  ?recs)
     = ''DD-WRT'' @ [CHR 0x01, NUL] @ [CHR 0x07] @ ''wl_ssid'' @ [CHR 0x06, NUL] @ ''MyNet'' @ [CHR 0x01]"
    by (simp add: char_of_eq_iff take_bit_eq_mod)
  from name_length_masked [OF good small] show ?thesis
    unfolding rendered image .
qed

lemma escaped_replicate:
  assumes "tmpbuf mode c = [c]"
  shows "escaped mode (replicate n c) = replicate n c"
  using assms by (induction n) (simp_all add: escaped_def)

text \<open>
  Claim C3 as stated fails: a line whose name has 256 bytes is not refused. \<^verbatim>\<open>main\<close> ends
  with status 0 and the record written has the name length 0 and no name bytes.
\<close>

theorem name_of_256_bytes_written_empty:
  "main_build [replicate 256 (CHR ''a'') @ ''=v'' @ [NL]]
     = Inr (0, Some (''DD-WRT'' @ [CHR 0x01, NUL] @ [NUL] @ [CHR 0x01, NUL] @ ''v''))"
proof -
  let ?recs = "[(replicate 256 (CHR ''a''), ''v'')]"
  have plain: "tmpbuf ESC_FULL (CHR ''a'') = ''a''"
    by (simp add: tmpbuf_def isascii_def iscntrl_def)
  have name: "escaped ESC_FULL (replicate 256 (CHR ''a'')) = replicate 256 (CHR ''a'')"
    using plain by (rule escaped_replicate)
  have val: "escaped ESC_FULL ''v'' = ''v''"
    by (simp add: text_eval)
  have good: "\<forall>r\<in>set ?recs. representable r \<and> length (fst r) \<le> 256 \<and> length (snd r) \<le> 65536"
    by (simp add: representable_def)
  have rendered: "concat (map text_line ?recs) = replicate 256 (CHR ''a'') @ ''=v'' @ [NL]"
    by (simp add: text_line_def name val)
  have small: "length (concat (map text_line ?recs)) \<le> 128 * 1024"
    unfolding rendered by simp
  have "make_record (replicate 256 (CHR ''a'') @ [NUL]) (''v'' @ [NUL]) = [NUL] @ [CHR 0x01, NUL] @ ''v''"
    by (subst make_record_strings) (simp_all add: char_of_eq_iff take_bit_eq_mod)
  then have image: "write_image ?recs = ''DD-WRT'' @ [CHR 0x01, NUL] @ [NUL] @ [CHR 0x01, NUL] @ ''v''"
    by (simp add: write_image_bytes char_of_eq_iff take_bit_eq_mod)
  from main_build_text [OF good small] show ?thesis
    unfolding rendered image .
qed

end
